theory Spec2Isabelle
  imports Main "HOL-Library.AList" "HOL-Library.Sublist"
begin

section \<open>Values, documents and change rows\<close>

text \<open>
  The property values that the checkpoint code compares are primitives, on which
  JavaScript's \<open>===\<close> is structural equality. A document body is an object: an ordered
  list of properties. Reading a property that is absent gives \<open>undefined\<close>, which is
  \<open>None\<close> here, so \<open>undefined === undefined\<close> holds as in JavaScript.
\<close>

datatype jsval = JNull | JBool bool | JNum nat | JStr string

type_synonym pouch_doc = "(string \<times> jsval) list"

definition getProp :: "pouch_doc \<Rightarrow> string \<Rightarrow> jsval option" where
  "getProp d k = map_of d k"

text \<open>
  A row of the change feed (\<open>PouchChangeRow & PouchChangeDoc\<close>): \<open>id\<close>, \<open>seq\<close>,
  \<open>doc\<close> and \<open>deleted\<close>. The rows that the revision refresh builds from \<open>bulkGet\<close>
  have no \<open>seq\<close>; a \<open>deleted\<close> that is absent is \<open>None\<close>.
\<close>

record change_row =
  row_id :: string
  row_seq :: "nat option"
  row_doc :: pouch_doc
  row_deleted :: "jsval option"

record changes_result =
  results :: "change_row list"
  last_seq :: nat

text \<open>
  One entry of a \<open>bulkGet\<close> answer: \<open>{id, docs: [{ok: doc} | {error: ...}]}\<close>.
\<close>

datatype bulkget_doc = Ok pouch_doc | Error string

record bulkget_result =
  bg_id :: string
  bg_docs :: "bulkget_doc list"

text \<open>
  The PouchDB handle of a collection. Both calls are capabilities of the store, so they
  are taken as they come: \<open>changes since limit\<close> (always with \<open>include_docs\<close>) and
  \<open>bulkGet docs\<close> (always with \<open>revs\<close> and \<open>latest\<close>). The cursor read from the
  checkpoint may be \<open>undefined\<close> when the stored record has no \<open>value\<close>.
\<close>

record pouch_db =
  changes :: "nat option \<Rightarrow> nat \<Rightarrow> changes_result"
  bulkGet :: "(string \<times> jsval option) list \<Rightarrow> bulkget_result list"

datatype error = TypeError | RevisionConflict

section \<open>The local documents store\<close>

text \<open>
  A local document carries \<open>_id\<close>, the revision \<open>_rev\<close> that the store gave it (absent
  on a document that was never written), and the payload: \<open>value\<close> on a push checkpoint,
  \<open>doc\<close> on a pull checkpoint.
\<close>

record local_doc =
  ld_id :: string
  ld_rev :: "string option"
  ld_value :: "nat option"
  ld_doc :: "pouch_doc option"

text \<open>
  The store is its table of records together with the way it names the revision that
  follows a given one (the algorithm belongs to the store).
\<close>

record local_store =
  ls_docs :: "local_doc list"
  ls_new_rev :: "string option \<Rightarrow> string"

text \<open>
  Modelled from the spec: \<open>findLocalDocument\<close> of \<open>rx-storage-helper\<close> is
  \<open>readLocalMetadata(key) \<rightarrow> record | absent\<close>, a read of the single record stored
  under the key.
\<close>

definition findLocalDocument :: "local_store \<Rightarrow> string \<Rightarrow> local_doc option" where
  "findLocalDocument st key = find (\<lambda>d. ld_id d = key) (ls_docs st)"

fun put_local :: "local_doc \<Rightarrow> local_doc list \<Rightarrow> local_doc list" where
  "put_local d [] = [d]"
| "put_local d (x # xs) = (if ld_id x = ld_id d then d # xs else x # put_local d xs)"

text \<open>
  Modelled from the spec: \<open>writeSingleLocal\<close> of \<open>rx-storage-helper\<close> is
  \<open>writeLocalMetadata(key, record, expectedRevision?) \<rightarrow> updated record\<close>. Without
  \<open>overwrite\<close> the write is accepted only when the revision it carries is the one the
  store holds for the key (none for a key that is absent); otherwise it is rejected with
  a revision conflict. An accepted write replaces the record under the key, or adds it,
  and returns it with its new storage revision.
\<close>

definition writeSingleLocal ::
  "local_store \<Rightarrow> bool \<Rightarrow> local_doc \<Rightarrow> error + (local_doc \<times> local_store)" where
  "writeSingleLocal st overwrite d =
     (let cur = (case findLocalDocument st (ld_id d) of None \<Rightarrow> None | Some p \<Rightarrow> ld_rev p)
      in if \<not> overwrite \<and> ld_rev d \<noteq> cur then Inl RevisionConflict
         else (let d' = d\<lparr>ld_rev := Some (ls_new_rev st cur)\<rparr>
               in Inr (d', st\<lparr>ls_docs := put_local d' (ls_docs st)\<rparr>)))"

section \<open>The collection\<close>

record rx_collection =
  localDocumentsStore :: local_store
  pouch :: pouch_db
  handleFromPouch :: "pouch_doc \<Rightarrow> pouch_doc"
  primaryPath :: string

text \<open>
  Modelled from the spec: \<open>pouchSwapIdToPrimary\<close> of \<open>rx-storage-pouchdb\<close> is
  \<open>normalizePrimaryKey\<close>: it renames the store's identifier field \<open>_id\<close> to the
  schema's logical primary key. Where the logical key is \<open>_id\<close> itself there is nothing
  to rename.
\<close>

definition pouchSwapIdToPrimary :: "string \<Rightarrow> pouch_doc \<Rightarrow> pouch_doc" where
  "pouchSwapIdToPrimary primaryKey docData =
     (if primaryKey = ''_id'' then docData
      else (case getProp docData ''_id'' of
              None \<Rightarrow> AList.delete primaryKey docData
            | Some v \<Rightarrow> AList.update primaryKey v (AList.delete ''_id'' docData)))"

section \<open>Push checkpoint\<close>

text \<open>
  \<open>GRAPHQL_REPLICATION_PLUGIN_IDENT\<close> is imported from \<open>./helper\<close>; it is the first
  argument \<open>ident\<close> of every function that builds a key. \<open>getLastPushSequence\<close>
  returns \<open>doc.value\<close> as it finds it: \<open>None\<close> is the \<open>undefined\<close> of a record
  that has no \<open>value\<close>. Sequences are natural numbers. A write returns the stored
  record and the collection with its store updated.
\<close>

definition pushSequenceId :: "string \<Rightarrow> string \<Rightarrow> string" where
  "pushSequenceId ident endpointHash = ident @ ''-push-checkpoint-'' @ endpointHash"

definition getLastPushSequence :: "string \<Rightarrow> rx_collection \<Rightarrow> string \<Rightarrow> nat option" where
  "getLastPushSequence ident collection endpointHash =
     (case findLocalDocument (localDocumentsStore collection) (pushSequenceId ident endpointHash) of
        None \<Rightarrow> Some 0
      | Some doc \<Rightarrow> ld_value doc)"

definition setLastPushSequence ::
  "string \<Rightarrow> rx_collection \<Rightarrow> string \<Rightarrow> nat \<Rightarrow> error + (local_doc \<times> rx_collection)" where
  "setLastPushSequence ident collection endpointHash seq =
     (let key = pushSequenceId ident endpointHash;
          doc = (case findLocalDocument (localDocumentsStore collection) key of
                   None \<Rightarrow> \<lparr>ld_id = key, ld_rev = None, ld_value = Some seq, ld_doc = None\<rparr>
                 | Some doc \<Rightarrow> doc\<lparr>ld_value := Some seq\<rparr>)
      in case writeSingleLocal (localDocumentsStore collection) False doc of
           Inl e \<Rightarrow> Inl e
         | Inr (res, st) \<Rightarrow> Inr (res, collection\<lparr>localDocumentsStore := st\<rparr>))"

section \<open>Pull checkpoint\<close>

text \<open>
  What \<open>getLastPullDocument\<close> returns: \<open>null\<close> when there is no record, else
  \<open>localDoc.doc\<close>, which is \<open>undefined\<close> on a record that has no \<open>doc\<close>.
\<close>

datatype pull_document = PullNull | PullUndefined | PullDoc pouch_doc

definition pullLastDocumentId :: "string \<Rightarrow> string \<Rightarrow> string" where
  "pullLastDocumentId ident endpointHash = ident @ ''-pull-checkpoint-'' @ endpointHash"

definition getLastPullDocument :: "string \<Rightarrow> rx_collection \<Rightarrow> string \<Rightarrow> pull_document" where
  "getLastPullDocument ident collection endpointHash =
     (case findLocalDocument (localDocumentsStore collection) (pullLastDocumentId ident endpointHash) of
        None \<Rightarrow> PullNull
      | Some localDoc \<Rightarrow> (case ld_doc localDoc of None \<Rightarrow> PullUndefined | Some d \<Rightarrow> PullDoc d))"

definition setLastPullDocument ::
  "string \<Rightarrow> rx_collection \<Rightarrow> string \<Rightarrow> pouch_doc \<Rightarrow> error + (local_doc \<times> rx_collection)" where
  "setLastPullDocument ident collection endpointHash doc =
     (let key = pullLastDocumentId ident endpointHash;
          written = (case findLocalDocument (localDocumentsStore collection) key of
                       None \<Rightarrow> writeSingleLocal (localDocumentsStore collection) False
                                 \<lparr>ld_id = key, ld_rev = None, ld_value = None, ld_doc = Some doc\<rparr>
                     | Some localDoc \<Rightarrow> writeSingleLocal (localDocumentsStore collection) False
                                 (localDoc\<lparr>ld_doc := Some doc\<rparr>))
      in case written of
           Inl e \<Rightarrow> Inl e
         | Inr (res, st) \<Rightarrow> Inr (res, collection\<lparr>localDocumentsStore := st\<rparr>))"

section \<open>Selecting the changes to push\<close>

text \<open>
  The filter of the change window. \<open>oracle\<close> is \<open>wasRevisionfromPullReplication\<close> of
  \<open>./helper\<close>, asked about the document's \<open>_rev\<close>.
\<close>

definition pushable ::
  "(string \<Rightarrow> jsval option \<Rightarrow> bool) \<Rightarrow> string \<Rightarrow> string \<Rightarrow> change_row \<Rightarrow> bool" where
  "pushable oracle endpointHash lastPulledRevField change =
     (if oracle endpointHash (getProp (row_doc change) ''_rev'') then False
      else if getProp (row_doc change) lastPulledRevField = getProp (row_doc change) ''_rev'' then False
      else if prefix ''_design/'' (row_id change) then False
      else True)"

definition filteredResults ::
  "(string \<Rightarrow> jsval option \<Rightarrow> bool) \<Rightarrow> string \<Rightarrow> string \<Rightarrow> changes_result \<Rightarrow> change_row list" where
  "filteredResults oracle endpointHash lastPulledRevField chs =
     filter (pushable oracle endpointHash lastPulledRevField) (results chs)"

definition docsSearch :: "change_row list \<Rightarrow> (string \<times> jsval option) list" where
  "docsSearch filtered =
     map (\<lambda>result. (row_id result, getProp (row_doc result) ''_rev'')) filtered"

text \<open>
  \<open>result.docs[0]['ok']._deleted\<close> raises a TypeError when \<open>docs\<close> is empty and when
  its first entry has no \<open>ok\<close>.
\<close>

definition fromBulkGet :: "bulkget_result \<Rightarrow> error + change_row" where
  "fromBulkGet result =
     (case bg_docs result of
        [] \<Rightarrow> Inl TypeError
      | Error _ # _ \<Rightarrow> Inl TypeError
      | Ok d # _ \<Rightarrow> Inr \<lparr>row_id = bg_id result, row_seq = None, row_doc = d,
                         row_deleted = getProp d ''_deleted''\<rparr>)"

fun mapResult :: "('a \<Rightarrow> error + 'b) \<Rightarrow> 'a list \<Rightarrow> error + 'b list" where
  "mapResult f [] = Inr []"
| "mapResult f (x # xs) =
     (case f x of
        Inl e \<Rightarrow> Inl e
      | Inr y \<Rightarrow> (case mapResult f xs of Inl e \<Rightarrow> Inl e | Inr ys \<Rightarrow> Inr (y # ys)))"

definition useResults ::
  "rx_collection \<Rightarrow> bool \<Rightarrow> change_row list \<Rightarrow> error + change_row list" where
  "useResults collection syncRevisions filtered =
     (if filtered \<noteq> [] \<and> syncRevisions
      then mapResult fromBulkGet (bulkGet (pouch collection) (docsSearch filtered))
      else Inr filtered)"

text \<open>
  The body of \<open>while (retry)\<close>: fetch a window at the cursor, filter it, refresh the
  kept rows when \<open>syncRevisions\<close> asks for it, and either go round again from the
  window's \<open>last_seq\<close> (nothing to use, and the window was full) or stop with the
  window, its results replaced by the rows to use. Nothing bounds the number of rounds,
  so the loop returns an option: \<open>None\<close> is a loop that never ends. A rejected
  \<open>bulkGet\<close> row ends the call with its error. Beside the changes the loop returns
  the cursors of the fetches it issued, in order; the source does not return them, they
  are kept here to count the fetches.
\<close>

partial_function (option) retryLoop ::
  "(string \<Rightarrow> jsval option \<Rightarrow> bool) \<Rightarrow> rx_collection \<Rightarrow> string \<Rightarrow> string \<Rightarrow> nat \<Rightarrow> bool
     \<Rightarrow> nat option \<Rightarrow> nat option list \<Rightarrow> (error + (changes_result \<times> nat option list)) option" where
  "retryLoop oracle collection endpointHash lastPulledRevField batchSize syncRevisions
       lastPushSequence fetches =
     (let chs = changes (pouch collection) lastPushSequence batchSize;
          fetched = fetches @ [lastPushSequence]
      in case useResults collection syncRevisions
                (filteredResults oracle endpointHash lastPulledRevField chs) of
           Inl e \<Rightarrow> Some (Inl e)
         | Inr use \<Rightarrow>
             if use = [] \<and> length (results chs) = batchSize
             then retryLoop oracle collection endpointHash lastPulledRevField batchSize syncRevisions
                    (Some (last_seq chs)) fetched
             else Some (Inr (chs\<lparr>results := use\<rparr>, fetched)))"

text \<open>
  The \<open>forEach\<close> after the loop: each returned row keeps its fields and gets its
  \<open>doc\<close> decoded and its primary key swapped.
\<close>

definition fromPouch :: "rx_collection \<Rightarrow> change_row \<Rightarrow> change_row" where
  "fromPouch collection change =
     change\<lparr>row_doc := pouchSwapIdToPrimary (primaryPath collection)
                          (handleFromPouch collection (row_doc change))\<rparr>"

definition getChangesSinceLastPushSequence ::
  "string \<Rightarrow> (string \<Rightarrow> jsval option \<Rightarrow> bool) \<Rightarrow> rx_collection \<Rightarrow> string \<Rightarrow> string \<Rightarrow> nat \<Rightarrow> bool
     \<Rightarrow> (error + (changes_result \<times> nat option list)) option" where
  "getChangesSinceLastPushSequence ident oracle collection endpointHash lastPulledRevField
       batchSize syncRevisions =
     (case retryLoop oracle collection endpointHash lastPulledRevField batchSize syncRevisions
             (getLastPushSequence ident collection endpointHash) [] of
        None \<Rightarrow> None
      | Some (Inl e) \<Rightarrow> Some (Inl e)
      | Some (Inr (chs, fetched)) \<Rightarrow>
          Some (Inr (chs\<lparr>results := map (fromPouch collection) (results chs)\<rparr>, fetched)))"

text \<open>
  The cursors of a run of the loop, as a test on a list: the first is the cursor the loop
  starts from; at every cursor but the last the window was full and left nothing to use,
  and the next cursor is that window's \<open>last_seq\<close>.
\<close>

fun fetchChain ::
  "(string \<Rightarrow> jsval option \<Rightarrow> bool) \<Rightarrow> rx_collection \<Rightarrow> string \<Rightarrow> string \<Rightarrow> nat \<Rightarrow> bool
     \<Rightarrow> nat option \<Rightarrow> nat option list \<Rightarrow> bool" where
  "fetchChain oracle collection endpointHash lastPulledRevField batchSize syncRevisions c [] = False"
| "fetchChain oracle collection endpointHash lastPulledRevField batchSize syncRevisions c [x] = (x = c)"
| "fetchChain oracle collection endpointHash lastPulledRevField batchSize syncRevisions c (x # y # ys) =
     (x = c \<and>
      useResults collection syncRevisions
        (filteredResults oracle endpointHash lastPulledRevField
           (changes (pouch collection) c batchSize)) = Inr [] \<and>
      length (results (changes (pouch collection) c batchSize)) = batchSize \<and>
      fetchChain oracle collection endpointHash lastPulledRevField batchSize syncRevisions
        (Some (last_seq (changes (pouch collection) c batchSize))) (y # ys))"

text \<open>
  Modelled from the spec: \<open>pouch.changes\<close> is \<open>changesSince(sequence, limit)\<close>, the
  ordered feed: the first \<open>limit\<close> rows whose sequence lies strictly after the cursor,
  and the sequence of the last row returned (the cursor itself when there is none). An
  \<open>undefined\<close> cursor reads the feed from its start.
\<close>

definition seqAfter :: "nat \<Rightarrow> change_row \<Rightarrow> bool" where
  "seqAfter s r = (case row_seq r of None \<Rightarrow> False | Some q \<Rightarrow> s < q)"

definition pouch_changes :: "change_row list \<Rightarrow> nat option \<Rightarrow> nat \<Rightarrow> changes_result" where
  "pouch_changes feed since limit =
     (let s = (case since of None \<Rightarrow> 0 | Some n \<Rightarrow> n);
          rs = take limit (filter (seqAfter s) feed)
      in \<lparr>results = rs,
          last_seq = (if rs = [] then s
                      else (case row_seq (last rs) of None \<Rightarrow> s | Some q \<Rightarrow> q))\<rparr>)"

section \<open>Runs of checkpoint calls and an in-memory store\<close>

text \<open>
  A run of calls on the push checkpoint of one endpoint. \<open>runCalls\<close> gives the value
  that \<open>getLastPushSequence\<close> reads after each call, or nothing when a call fails.
\<close>

datatype call = GetSeq | SetSeq nat

fun runCalls :: "string \<Rightarrow> rx_collection \<Rightarrow> string \<Rightarrow> call list \<Rightarrow> nat option list option" where
  "runCalls ident collection endpointHash [] = Some []"
| "runCalls ident collection endpointHash (GetSeq # cs) =
     map_option (Cons (getLastPushSequence ident collection endpointHash))
       (runCalls ident collection endpointHash cs)"
| "runCalls ident collection endpointHash (SetSeq n # cs) =
     (case setLastPushSequence ident collection endpointHash n of
        Inl e \<Rightarrow> None
      | Inr (res, collection') \<Rightarrow>
          map_option (Cons (getLastPushSequence ident collection' endpointHash))
            (runCalls ident collection' endpointHash cs))"

fun setArgs :: "call list \<Rightarrow> nat list" where
  "setArgs [] = []"
| "setArgs (GetSeq # cs) = setArgs cs"
| "setArgs (SetSeq n # cs) = n # setArgs cs"

text \<open>
  The feed is ordered: every row has a sequence and the sequences grow strictly.
\<close>

definition seqBefore :: "change_row \<Rightarrow> change_row \<Rightarrow> bool" where
  "seqBefore r r' = (case row_seq r of None \<Rightarrow> False | Some p \<Rightarrow> seqAfter p r')"

definition feedOrdered :: "change_row list \<Rightarrow> bool" where
  "feedOrdered feed = sorted_wrt seqBefore feed"

text \<open>
  A store held in memory, to run the functions on concrete inputs: revisions are
  counted in unary, the feed is a list of rows, and \<open>bulkGet\<close> answers from the
  bodies that win at the time of the refresh.
\<close>

definition memoryRev :: "string option \<Rightarrow> string" where
  "memoryRev r = (case r of None \<Rightarrow> ''0-1'' | Some p \<Rightarrow> p @ ''1'')"

definition memoryGet :: "pouch_doc list \<Rightarrow> string \<times> jsval option \<Rightarrow> bulkget_result" where
  "memoryGet winners ref =
     \<lparr>bg_id = fst ref,
      bg_docs = (case find (\<lambda>d. getProp d ''_id'' = Some (JStr (fst ref))) winners of
                   None \<Rightarrow> [Error ''not_found'']
                 | Some d \<Rightarrow> [Ok d])\<rparr>"

definition memoryCollection ::
  "local_doc list \<Rightarrow> change_row list \<Rightarrow> pouch_doc list \<Rightarrow> string \<Rightarrow> rx_collection" where
  "memoryCollection locals feed winners pk =
     \<lparr>localDocumentsStore = \<lparr>ls_docs = locals, ls_new_rev = memoryRev\<rparr>,
      pouch = \<lparr>changes = pouch_changes feed, bulkGet = map (memoryGet winners)\<rparr>,
      handleFromPouch = id,
      primaryPath = pk\<rparr>"

definition endsWith :: "string \<Rightarrow> string \<Rightarrow> bool" where
  "endsWith ending s = prefix (rev ending) (rev s)"

definition memoryOracle :: "string \<Rightarrow> jsval option \<Rightarrow> bool" where
  "memoryOracle endpointHash revision =
     (case revision of Some (JStr r) \<Rightarrow> endsWith (take 8 endpointHash @ ''-pulled'') r | _ \<Rightarrow> False)"

definition memoryRow :: "string \<Rightarrow> nat \<Rightarrow> string \<Rightarrow> change_row" where
  "memoryRow i q revision =
     \<lparr>row_id = i, row_seq = Some q,
      row_doc = [(''_id'', JStr i), (''_rev'', JStr revision)], row_deleted = None\<rparr>"

text \<open>
  Rows for the examples: \<open>rowA\<close> and \<open>rowC\<close> are local changes, \<open>rowB\<close> carries
  a revision written by a pull from endpoint \<open>h1\<close>, \<open>rowU\<close> is a document whose
  \<open>last_pulled_rev\<close> is its revision, and \<open>filteredRow q\<close> is a row at sequence
  \<open>q\<close> that the filter drops: a design document, a pulled revision or an unchanged
  pulled document, in turn.
\<close>

definition rowA :: change_row where
  "rowA = memoryRow ''a'' 1 ''1-aaa''"

definition rowB :: change_row where
  "rowB = memoryRow ''b'' 2 ''2-bbbh1-pulled''"

definition rowC :: change_row where
  "rowC = memoryRow ''c'' 3 ''1-ccc''"

definition rowU :: change_row where
  "rowU = \<lparr>row_id = ''u'', row_seq = Some 4,
           row_doc = [(''_id'', JStr ''u''), (''_rev'', JStr ''5-uuu''),
                      (''last_pulled_rev'', JStr ''5-uuu'')],
           row_deleted = None\<rparr>"

definition filteredRow :: "nat \<Rightarrow> change_row" where
  "filteredRow q =
     (if q mod 3 = 0 then memoryRow ''_design/index'' q ''1-ddd''
      else if q mod 3 = 1 then memoryRow ''p'' q ''2-ppph1-pulled''
      else \<lparr>row_id = ''u'', row_seq = Some q,
             row_doc = [(''_id'', JStr ''u''), (''_rev'', JStr ''5-uuu''),
                        (''last_pulled_rev'', JStr ''5-uuu'')],
             row_deleted = None\<rparr>)"

text \<open>
  Two later change records of document \<open>a\<close>: \<open>rowA2\<close> carries a revision written by
  a pull from \<open>h1\<close>, \<open>rowA3\<close> has \<open>last_pulled_rev\<close> equal to its revision.
\<close>

definition rowA2 :: change_row where
  "rowA2 = memoryRow ''a'' 2 ''2-aaah1-pulled''"

definition rowA3 :: change_row where
  "rowA3 = \<lparr>row_id = ''a'', row_seq = Some 2,
            row_doc = [(''_id'', JStr ''a''), (''_rev'', JStr ''3-aaa''),
                       (''last_pulled_rev'', JStr ''3-aaa'')],
            row_deleted = None\<rparr>"

definition winnerA :: pouch_doc where
  "winnerA = [(''_id'', JStr ''a''), (''_rev'', JStr ''2-aaa''), (''_deleted'', JBool True)]"

section \<open>The local documents store: reads after writes\<close>

lemma find_put_local:
  "find (\<lambda>x. ld_id x = ld_id d) (put_local d xs) = Some d"
  by (induction xs) auto

lemma ids_put_local_present:
  "find (\<lambda>x. ld_id x = ld_id d) xs = Some p \<Longrightarrow> map ld_id (put_local d xs) = map ld_id xs"
  by (induction xs) (auto split: if_splits)

lemma find_Some_id: "find (\<lambda>x. ld_id x = k) xs = Some p \<Longrightarrow> ld_id p = k"
  by (induction xs) (auto split: if_splits)

lemma find_None_iff_no_id: "find (\<lambda>x. ld_id x = k) xs = None \<longleftrightarrow> k \<notin> ld_id ` set xs"
  by (induction xs) auto

lemma setLastPushSequence_absent:
  assumes "findLocalDocument (localDocumentsStore col) (pushSequenceId ident h) = None"
  shows "setLastPushSequence ident col h n =
           Inr (\<lparr>ld_id = pushSequenceId ident h,
                  ld_rev = Some (ls_new_rev (localDocumentsStore col) None),
                  ld_value = Some n, ld_doc = None\<rparr>,
                col\<lparr>localDocumentsStore := (localDocumentsStore col)\<lparr>ls_docs :=
                  put_local \<lparr>ld_id = pushSequenceId ident h,
                    ld_rev = Some (ls_new_rev (localDocumentsStore col) None),
                    ld_value = Some n, ld_doc = None\<rparr> (ls_docs (localDocumentsStore col))\<rparr>\<rparr>)"
  using assms by (simp add: setLastPushSequence_def writeSingleLocal_def Let_def)

lemma setLastPushSequence_present:
  assumes "findLocalDocument (localDocumentsStore col) (pushSequenceId ident h) = Some p"
  shows "setLastPushSequence ident col h n =
           Inr (p\<lparr>ld_value := Some n, ld_rev := Some (ls_new_rev (localDocumentsStore col) (ld_rev p))\<rparr>,
                col\<lparr>localDocumentsStore := (localDocumentsStore col)\<lparr>ls_docs :=
                  put_local (p\<lparr>ld_value := Some n, ld_rev := Some (ls_new_rev (localDocumentsStore col) (ld_rev p))\<rparr>)
                    (ls_docs (localDocumentsStore col))\<rparr>\<rparr>)"
proof -
  from assms have "ld_id p = pushSequenceId ident h"
    unfolding findLocalDocument_def by (rule find_Some_id)
  with assms show ?thesis
    by (simp add: setLastPushSequence_def writeSingleLocal_def Let_def)
qed

text \<open>
  A call that runs alone always carries the revision it has just read, so the store
  accepts its write.
\<close>

lemma setLastPushSequence_succeeds:
  "\<exists>r col'. setLastPushSequence ident col h n = Inr (r, col')"
  by (cases "findLocalDocument (localDocumentsStore col) (pushSequenceId ident h)")
     (simp_all add: setLastPushSequence_absent setLastPushSequence_present)

lemma setLastPushSequence_result:
  assumes "setLastPushSequence ident col h n = Inr (r, col')"
  shows "findLocalDocument (localDocumentsStore col') (pushSequenceId ident h) = Some r
         \<and> ld_value r = Some n \<and> ld_id r = pushSequenceId ident h
         \<and> ld_rev r = Some (ls_new_rev (localDocumentsStore col)
              (case findLocalDocument (localDocumentsStore col) (pushSequenceId ident h) of
                 None \<Rightarrow> None | Some p \<Rightarrow> ld_rev p))
         \<and> ls_new_rev (localDocumentsStore col') = ls_new_rev (localDocumentsStore col)"
proof (cases "findLocalDocument (localDocumentsStore col) (pushSequenceId ident h)")
  case None
  from assms[unfolded setLastPushSequence_absent[OF None]] show ?thesis
    using None find_put_local[of r "ls_docs (localDocumentsStore col)"]
    by (auto simp: findLocalDocument_def)
next
  case (Some p)
  then have id: "ld_id p = pushSequenceId ident h"
    unfolding findLocalDocument_def by (rule find_Some_id)
  from assms[unfolded setLastPushSequence_present[OF Some]] show ?thesis
    using Some id find_put_local[of r "ls_docs (localDocumentsStore col)"]
    by (auto simp: findLocalDocument_def)
qed

lemma getLastPushSequence_after_set:
  assumes "setLastPushSequence ident col h n = Inr (r, col')"
  shows "getLastPushSequence ident col' h = Some n"
  using setLastPushSequence_result[OF assms] by (simp add: getLastPushSequence_def)

lemma setLastPushSequence_update_keys:
  assumes "findLocalDocument (localDocumentsStore col) (pushSequenceId ident h) = Some p"
    and "setLastPushSequence ident col h n = Inr (r, col')"
  shows "map ld_id (ls_docs (localDocumentsStore col')) = map ld_id (ls_docs (localDocumentsStore col))"
proof -
  from assms(1) have id: "ld_id p = pushSequenceId ident h"
    unfolding findLocalDocument_def by (rule find_Some_id)
  from assms(2)[unfolded setLastPushSequence_present[OF assms(1)]] show ?thesis
    using assms(1) id
      ids_put_local_present[of r "ls_docs (localDocumentsStore col)" p]
    by (auto simp: findLocalDocument_def)
qed


section \<open>The retry loop: where a returned batch comes from\<close>

text \<open>
  Whatever the loop returns was decided on the window of its last fetch: an error is the
  error of the revision refresh on that window, and a batch holds the rows kept from
  that window, its \<open>last_seq\<close>, and is empty only when the window was not full.
\<close>

lemma retryLoop_returns:
  assumes "retryLoop orc col h f b sync s fs = Some y"
  shows "\<exists>cur pre.
           (case y of
              Inl e \<Rightarrow> useResults col sync (filteredResults orc h f (changes (pouch col) cur b)) = Inl e
            | Inr (chs, fetched) \<Rightarrow>
                fetched = fs @ pre @ [cur] \<and>
                last_seq chs = last_seq (changes (pouch col) cur b) \<and>
                useResults col sync (filteredResults orc h f (changes (pouch col) cur b))
                  = Inr (results chs) \<and>
                (results chs \<noteq> [] \<or> length (results (changes (pouch col) cur b)) \<noteq> b))"
proof -
  define P where "P = (\<lambda>(orc :: string \<Rightarrow> jsval option \<Rightarrow> bool) (col :: rx_collection)
       (h :: string) (f :: string) (b :: nat) (sync :: bool) (s :: nat option)
       (fs :: nat option list) (y :: error + changes_result \<times> nat option list).
     \<exists>cur pre.
           (case y of
              Inl e \<Rightarrow> useResults col sync (filteredResults orc h f (changes (pouch col) cur b)) = Inl e
            | Inr (chs, fetched) \<Rightarrow>
                fetched = fs @ pre @ [cur] \<and>
                last_seq chs = last_seq (changes (pouch col) cur b) \<and>
                useResults col sync (filteredResults orc h f (changes (pouch col) cur b))
                  = Inr (results chs) \<and>
                (results chs \<noteq> [] \<or> length (results (changes (pouch col) cur b)) \<noteq> b)))"
  have "P orc col h f b sync s fs y"
  proof (rule retryLoop.raw_induct[where P = P, OF _ assms])
    fix rl and orc :: "string \<Rightarrow> jsval option \<Rightarrow> bool" and col :: rx_collection
      and h f :: string and b :: nat and sync :: bool and s :: "nat option"
      and fs :: "nat option list" and y :: "error + changes_result \<times> nat option list"
    assume IH: "\<And>orc col h f b sync s fs y.
      rl orc col h f b sync s fs = Some y \<Longrightarrow> P orc col h f b sync s fs y"
    let ?w = "changes (pouch col) s b"
    assume eq: "(let chs = ?w; fetched = fs @ [s]
      in case useResults col sync (filteredResults orc h f chs) of
           Inl e \<Rightarrow> Some (Inl e)
         | Inr use \<Rightarrow>
             if use = [] \<and> length (results chs) = b
             then rl orc col h f b sync (Some (last_seq chs)) fetched
             else Some (Inr (chs\<lparr>results := use\<rparr>, fetched))) = Some y"
    show "P orc col h f b sync s fs y"
    proof (cases "useResults col sync (filteredResults orc h f ?w)")
      case (Inl e)
      with eq have "y = Inl e" by (simp add: Let_def)
      with Inl show ?thesis unfolding P_def by auto
    next
      case (Inr use)
      show ?thesis
      proof (cases "use = [] \<and> length (results ?w) = b")
        case True
        with Inr eq have "rl orc col h f b sync (Some (last_seq ?w)) (fs @ [s]) = Some y"
          by (simp add: Let_def)
        from IH[OF this] obtain cur pre where
          c: "(case y of
              Inl e \<Rightarrow> useResults col sync (filteredResults orc h f (changes (pouch col) cur b)) = Inl e
            | Inr (chs, fetched) \<Rightarrow>
                fetched = (fs @ [s]) @ pre @ [cur] \<and>
                last_seq chs = last_seq (changes (pouch col) cur b) \<and>
                useResults col sync (filteredResults orc h f (changes (pouch col) cur b))
                  = Inr (results chs) \<and>
                (results chs \<noteq> [] \<or> length (results (changes (pouch col) cur b)) \<noteq> b))"
          unfolding P_def by blast
        show ?thesis unfolding P_def
          apply (rule exI[of _ cur], rule exI[of _ "s # pre"])
          using c by (auto split: sum.splits)
      next
        case False
        with Inr eq have y: "y = Inr (?w\<lparr>results := use\<rparr>, fs @ [s])"
          by (auto simp: Let_def)
        show ?thesis unfolding P_def
          apply (rule exI[of _ s], rule exI[of _ "[]"])
          using y Inr False by auto
      qed
    qed
  qed
  then show ?thesis by (simp add: P_def)
qed

lemma useResults_Nil: "useResults col sync [] = Inr []"
  by (simp add: useResults_def)

lemma useResults_Inl:
  "useResults col sync sel = Inl e \<Longrightarrow> sync \<and> sel \<noteq> []"
  by (auto simp: useResults_def split: if_splits)

lemma getChanges_Inr:
  assumes "getChangesSinceLastPushSequence ident orc col h f b sync = Some (Inr (batch, fetched))"
  shows "\<exists>use. fetched \<noteq> [] \<and>
           useResults col sync (filteredResults orc h f (changes (pouch col) (last fetched) b)) = Inr use \<and>
           results batch = map (fromPouch col) use \<and>
           last_seq batch = last_seq (changes (pouch col) (last fetched) b) \<and>
           (use \<noteq> [] \<or> length (results (changes (pouch col) (last fetched) b)) \<noteq> b)"
proof -
  from assms obtain chs where
    loop: "retryLoop orc col h f b sync (getLastPushSequence ident col h) [] = Some (Inr (chs, fetched))"
    and batch: "batch = chs\<lparr>results := map (fromPouch col) (results chs)\<rparr>"
    by (auto simp: getChangesSinceLastPushSequence_def split: option.splits sum.splits)
  from retryLoop_returns[OF loop] obtain cur pre where
    "fetched = [] @ pre @ [cur]"
    "last_seq chs = last_seq (changes (pouch col) cur b)"
    "useResults col sync (filteredResults orc h f (changes (pouch col) cur b)) = Inr (results chs)"
    "results chs \<noteq> [] \<or> length (results (changes (pouch col) cur b)) \<noteq> b"
    by auto
  with batch show ?thesis by auto
qed

lemma getChanges_Inl:
  assumes "getChangesSinceLastPushSequence ident orc col h f b sync = Some (Inl e)"
  shows "\<exists>cur. useResults col sync (filteredResults orc h f (changes (pouch col) cur b)) = Inl e"
proof -
  from assms have
    loop: "retryLoop orc col h f b sync (getLastPushSequence ident col h) [] = Some (Inl e)"
    by (auto simp: getChangesSinceLastPushSequence_def split: option.splits sum.splits)
  from retryLoop_returns[OF loop] show ?thesis by auto
qed

section \<open>The retry loop: termination\<close>

text \<open>
  The loop goes round again only after a full window, and then from a cursor that lies
  further on. On a feed that has an end this can happen only finitely often.
\<close>

lemma retryLoop_step:
  "retryLoop orc col h f b sync s fs =
     (case useResults col sync (filteredResults orc h f (changes (pouch col) s b)) of
        Inl e \<Rightarrow> Some (Inl e)
      | Inr use \<Rightarrow>
          if use = [] \<and> length (results (changes (pouch col) s b)) = b
          then retryLoop orc col h f b sync (Some (last_seq (changes (pouch col) s b))) (fs @ [s])
          else Some (Inr (changes (pouch col) s b\<lparr>results := use\<rparr>, fs @ [s])))"
  by (subst retryLoop.simps) (simp add: Let_def)

lemma retryLoop_terminates_from:
  assumes exhausted: "\<And>s. N \<le> s \<Longrightarrow> length (results (changes (pouch col) (Some s) b)) \<noteq> b"
    and advance: "\<And>s. length (results (changes (pouch col) (Some s) b)) = b
                    \<Longrightarrow> s < last_seq (changes (pouch col) (Some s) b)"
  shows "\<exists>y. retryLoop orc col h f b sync (Some s) fs = Some y"
proof (induction "N - s" arbitrary: s fs rule: less_induct)
  case less
  let ?w = "changes (pouch col) (Some s) b"
  show ?case
  proof (cases "useResults col sync (filteredResults orc h f ?w)")
    case (Inl e)
    then show ?thesis by (subst retryLoop_step) simp
  next
    case (Inr use)
    show ?thesis
    proof (cases "use = [] \<and> length (results ?w) = b")
      case True
      then have full: "length (results ?w) = b" by simp
      from advance[OF full] have adv: "s < last_seq ?w" .
      from exhausted[of s] full have "s < N" by (cases "N \<le> s") auto
      with adv have "N - last_seq ?w < N - s" by arith
      from less[OF this] obtain y where
        "retryLoop orc col h f b sync (Some (last_seq ?w)) (fs @ [Some s]) = Some y"
        by blast
      with Inr True show ?thesis by (subst retryLoop_step) simp
    next
      case False
      with Inr show ?thesis by (subst retryLoop_step) auto
    qed
  qed
qed

lemma retryLoop_terminates:
  assumes exhausted: "\<And>s. N \<le> s \<Longrightarrow> length (results (changes (pouch col) (Some s) b)) \<noteq> b"
    and advance: "\<And>s. length (results (changes (pouch col) (Some s) b)) = b
                    \<Longrightarrow> s < last_seq (changes (pouch col) (Some s) b)"
  shows "\<exists>y. retryLoop orc col h f b sync c fs = Some y"
proof (cases "useResults col sync (filteredResults orc h f (changes (pouch col) c b))")
  case (Inl e)
  then show ?thesis by (subst retryLoop_step) simp
next
  case (Inr use)
  show ?thesis
  proof (cases "use = [] \<and> length (results (changes (pouch col) c b)) = b")
    case True
    from retryLoop_terminates_from[OF exhausted advance] obtain y where
      "retryLoop orc col h f b sync (Some (last_seq (changes (pouch col) c b))) (fs @ [c]) = Some y"
      by blast
    with Inr True show ?thesis by (subst retryLoop_step) simp
  next
    case False
    with Inr show ?thesis by (subst retryLoop_step) auto
  qed
qed

lemma getChanges_terminates:
  assumes exhausted: "\<And>s. N \<le> s \<Longrightarrow> length (results (changes (pouch col) (Some s) b)) \<noteq> b"
    and advance: "\<And>s. length (results (changes (pouch col) (Some s) b)) = b
                    \<Longrightarrow> s < last_seq (changes (pouch col) (Some s) b)"
  shows "\<exists>y. getChangesSinceLastPushSequence ident orc col h f b sync = Some y"
proof -
  from retryLoop_terminates[OF exhausted advance] obtain y where
    "retryLoop orc col h f b sync (getLastPushSequence ident col h) [] = Some y"
    by blast
  then show ?thesis
    by (cases y) (auto simp: getChangesSinceLastPushSequence_def)
qed

section \<open>The retry loop: the cursors of a run\<close>

text \<open>
  The loop and \<open>fetchChain\<close> describe the same runs. Whatever the loop returns, it
  fetched along a chain of cursors that starts at the cursor it was given, and the
  outcome was decided on the window of the last of them; and along any such chain the
  loop arrives at the last window.
\<close>

lemma fetchChain_nonempty: "fetchChain orc col h f b sync c tr \<Longrightarrow> tr \<noteq> []"
  by (cases tr) auto

lemma fetchChain_Cons:
  "tr \<noteq> [] \<Longrightarrow>
   fetchChain orc col h f b sync c (x # tr) =
     (x = c \<and>
      useResults col sync (filteredResults orc h f (changes (pouch col) c b)) = Inr [] \<and>
      length (results (changes (pouch col) c b)) = b \<and>
      fetchChain orc col h f b sync (Some (last_seq (changes (pouch col) c b))) tr)"
  by (cases tr) auto

lemma retryLoop_chain:
  assumes "retryLoop orc col h f b sync c fs = Some y"
  shows "\<exists>tr. fetchChain orc col h f b sync c tr \<and>
           (case y of
              Inl e \<Rightarrow>
                useResults col sync (filteredResults orc h f (changes (pouch col) (last tr) b)) = Inl e
            | Inr (chs, fetched) \<Rightarrow>
                fetched = fs @ tr \<and>
                (\<exists>use. useResults col sync
                          (filteredResults orc h f (changes (pouch col) (last tr) b)) = Inr use \<and>
                       chs = (changes (pouch col) (last tr) b)\<lparr>results := use\<rparr> \<and>
                       (use \<noteq> [] \<or> length (results (changes (pouch col) (last tr) b)) \<noteq> b)))"
proof -
  define P where "P = (\<lambda>(orc :: string \<Rightarrow> jsval option \<Rightarrow> bool) (col :: rx_collection)
       (h :: string) (f :: string) (b :: nat) (sync :: bool) (c :: nat option)
       (fs :: nat option list) (y :: error + changes_result \<times> nat option list).
     \<exists>tr. fetchChain orc col h f b sync c tr \<and>
           (case y of
              Inl e \<Rightarrow>
                useResults col sync (filteredResults orc h f (changes (pouch col) (last tr) b)) = Inl e
            | Inr (chs, fetched) \<Rightarrow>
                fetched = fs @ tr \<and>
                (\<exists>use. useResults col sync
                          (filteredResults orc h f (changes (pouch col) (last tr) b)) = Inr use \<and>
                       chs = (changes (pouch col) (last tr) b)\<lparr>results := use\<rparr> \<and>
                       (use \<noteq> [] \<or> length (results (changes (pouch col) (last tr) b)) \<noteq> b))))"
  have "P orc col h f b sync c fs y"
  proof (rule retryLoop.raw_induct[where P = P, OF _ assms])
    fix rl and orc :: "string \<Rightarrow> jsval option \<Rightarrow> bool" and col :: rx_collection
      and h f :: string and b :: nat and sync :: bool and c :: "nat option"
      and fs :: "nat option list" and y :: "error + changes_result \<times> nat option list"
    assume IH: "\<And>orc col h f b sync c fs y.
      rl orc col h f b sync c fs = Some y \<Longrightarrow> P orc col h f b sync c fs y"
    let ?w = "changes (pouch col) c b"
    assume eq: "(let chs = ?w; fetched = fs @ [c]
      in case useResults col sync (filteredResults orc h f chs) of
           Inl e \<Rightarrow> Some (Inl e)
         | Inr use \<Rightarrow>
             if use = [] \<and> length (results chs) = b
             then rl orc col h f b sync (Some (last_seq chs)) fetched
             else Some (Inr (chs\<lparr>results := use\<rparr>, fetched))) = Some y"
    show "P orc col h f b sync c fs y"
    proof (cases "useResults col sync (filteredResults orc h f ?w)")
      case (Inl e)
      with eq have "y = Inl e" by (simp add: Let_def)
      with Inl show ?thesis unfolding P_def
        by (intro exI[of _ "[c]"]) simp
    next
      case (Inr use)
      show ?thesis
      proof (cases "use = [] \<and> length (results ?w) = b")
        case True
        with Inr eq have "rl orc col h f b sync (Some (last_seq ?w)) (fs @ [c]) = Some y"
          by (simp add: Let_def)
        from IH[OF this] obtain tr where
          ch: "fetchChain orc col h f b sync (Some (last_seq ?w)) tr"
          and rest: "(case y of
              Inl e \<Rightarrow>
                useResults col sync (filteredResults orc h f (changes (pouch col) (last tr) b)) = Inl e
            | Inr (chs, fetched) \<Rightarrow>
                fetched = (fs @ [c]) @ tr \<and>
                (\<exists>use. useResults col sync
                          (filteredResults orc h f (changes (pouch col) (last tr) b)) = Inr use \<and>
                       chs = (changes (pouch col) (last tr) b)\<lparr>results := use\<rparr> \<and>
                       (use \<noteq> [] \<or> length (results (changes (pouch col) (last tr) b)) \<noteq> b)))"
          unfolding P_def by blast
        from ch have ne: "tr \<noteq> []" by (rule fetchChain_nonempty)
        with ch Inr True have ch': "fetchChain orc col h f b sync c (c # tr)"
          by (simp add: fetchChain_Cons)
        from ne have l: "last (c # tr) = last tr" by simp
        show ?thesis unfolding P_def
          apply (rule exI[of _ "c # tr"])
          using ch' rest ne by (auto split: sum.splits)
      next
        case False
        with Inr eq have y: "y = Inr (?w\<lparr>results := use\<rparr>, fs @ [c])"
          by (auto simp: Let_def)
        show ?thesis unfolding P_def
          apply (rule exI[of _ "[c]"])
          using y Inr False by auto
      qed
    qed
  qed
  then show ?thesis by (simp add: P_def)
qed

lemma fetchChain_run:
  assumes "fetchChain orc col h f b sync c tr"
  shows "retryLoop orc col h f b sync c fs =
     (case useResults col sync (filteredResults orc h f (changes (pouch col) (last tr) b)) of
        Inl e \<Rightarrow> Some (Inl e)
      | Inr use \<Rightarrow>
          if use = [] \<and> length (results (changes (pouch col) (last tr) b)) = b
          then retryLoop orc col h f b sync
                 (Some (last_seq (changes (pouch col) (last tr) b))) (fs @ tr)
          else Some (Inr (changes (pouch col) (last tr) b\<lparr>results := use\<rparr>, fs @ tr)))"
  using assms
proof (induction tr arbitrary: c fs)
  case Nil
  then show ?case by simp
next
  case (Cons x tr)
  show ?case
  proof (cases "tr = []")
    case True
    with Cons.prems have "x = c" by simp
    with True show ?thesis by (subst retryLoop_step) (simp split: sum.splits)
  next
    case False
    with Cons.prems have x: "x = c"
      and u: "useResults col sync (filteredResults orc h f (changes (pouch col) c b)) = Inr []"
      and len: "length (results (changes (pouch col) c b)) = b"
      and ch: "fetchChain orc col h f b sync (Some (last_seq (changes (pouch col) c b))) tr"
      by (simp_all add: fetchChain_Cons)
    have "retryLoop orc col h f b sync c fs
        = retryLoop orc col h f b sync (Some (last_seq (changes (pouch col) c b))) (fs @ [c])"
      by (subst retryLoop_step) (simp add: u len)
    also note Cons.IH[OF ch, of "fs @ [c]"]
    finally show ?thesis using False x by (simp split: sum.splits)
  qed
qed

lemma getChanges_Inr_chain:
  assumes "getChangesSinceLastPushSequence ident orc col h f b sync = Some (Inr (batch, fetched))"
  shows "fetchChain orc col h f b sync (getLastPushSequence ident col h) fetched \<and>
         (\<exists>use. useResults col sync
                   (filteredResults orc h f (changes (pouch col) (last fetched) b)) = Inr use \<and>
                results batch = map (fromPouch col) use \<and>
                (use \<noteq> [] \<or> length (results (changes (pouch col) (last fetched) b)) \<noteq> b)) \<and>
         last_seq batch = last_seq (changes (pouch col) (last fetched) b)"
proof -
  from assms obtain chs where
    loop: "retryLoop orc col h f b sync (getLastPushSequence ident col h) [] = Some (Inr (chs, fetched))"
    and batch: "batch = chs\<lparr>results := map (fromPouch col) (results chs)\<rparr>"
    by (auto simp: getChangesSinceLastPushSequence_def split: option.splits sum.splits)
  from retryLoop_chain[OF loop] obtain tr use where
    "fetchChain orc col h f b sync (getLastPushSequence ident col h) tr"
    "fetched = [] @ tr"
    "useResults col sync (filteredResults orc h f (changes (pouch col) (last tr) b)) = Inr use"
    "chs = (changes (pouch col) (last tr) b)\<lparr>results := use\<rparr>"
    "use \<noteq> [] \<or> length (results (changes (pouch col) (last tr) b)) \<noteq> b"
    by auto
  with batch show ?thesis by auto
qed

lemma getChanges_Inl_chain:
  assumes "getChangesSinceLastPushSequence ident orc col h f b sync = Some (Inl e)"
  shows "\<exists>tr. fetchChain orc col h f b sync (getLastPushSequence ident col h) tr \<and>
           useResults col sync (filteredResults orc h f (changes (pouch col) (last tr) b)) = Inl e"
proof -
  from assms have
    loop: "retryLoop orc col h f b sync (getLastPushSequence ident col h) [] = Some (Inl e)"
    by (auto simp: getChangesSinceLastPushSequence_def split: option.splits sum.splits)
  from retryLoop_chain[OF loop] show ?thesis by auto
qed

section \<open>The ordered feed\<close>

text \<open>
  Facts about the feed read in windows: a window is never longer than the limit, a full
  window moves the cursor on, past the last sequence there is nothing left, and on an
  ordered feed the rows after the k-th row of a window are the rest of that window's
  feed.
\<close>

lemma seqAfter_Some: "seqAfter s r \<longleftrightarrow> (\<exists>q. row_seq r = Some q \<and> s < q)"
  by (auto simp: seqAfter_def split: option.splits)

lemma pouch_changes_results:
  "results (pouch_changes feed (Some s) b) = take b (filter (seqAfter s) feed)"
  by (simp add: pouch_changes_def Let_def)

lemma pouch_changes_length: "length (results (pouch_changes feed c b)) \<le> b"
  by (simp add: pouch_changes_def Let_def)

lemma pouch_changes_last_seq:
  assumes "take b (filter (seqAfter s) feed) \<noteq> []"
    and "row_seq (last (take b (filter (seqAfter s) feed))) = Some q"
  shows "last_seq (pouch_changes feed (Some s) b) = q"
  using assms by (simp add: pouch_changes_def Let_def)

lemma pouch_changes_advances:
  assumes "0 < b" and "length (results (pouch_changes feed (Some s) b)) = b"
  shows "s < last_seq (pouch_changes feed (Some s) b)"
proof -
  let ?rs = "take b (filter (seqAfter s) feed)"
  from assms have ne: "?rs \<noteq> []" by (auto simp: pouch_changes_results)
  then have "last ?rs \<in> set ?rs" by (rule last_in_set)
  then have "last ?rs \<in> set (filter (seqAfter s) feed)" by (rule in_set_takeD)
  then have "seqAfter s (last ?rs)" by simp
  then obtain q where q: "row_seq (last ?rs) = Some q" "s < q"
    by (auto simp: seqAfter_Some)
  from pouch_changes_last_seq[OF ne q(1)] q(2) show ?thesis by simp
qed

lemma pouch_changes_exhausted:
  assumes "\<forall>r\<in>set feed. \<not> seqAfter N r" and "N \<le> s"
  shows "results (pouch_changes feed (Some s) b) = []"
proof -
  have "\<not> seqAfter s r" if "r \<in> set feed" for r
    using assms that by (auto simp: seqAfter_Some)
  then have "filter (seqAfter s) feed = []" by (simp add: filter_empty_conv)
  then show ?thesis by (simp add: pouch_changes_results)
qed

lemma ordered_after_kth:
  assumes "sorted_wrt seqBefore xs" and "k < length xs" and "row_seq (xs ! k) = Some q"
  shows "filter (seqAfter q) xs = drop (Suc k) xs"
  using assms
proof (induction xs arbitrary: k)
  case Nil
  then show ?case by simp
next
  case (Cons x xs)
  show ?case
  proof (cases k)
    case 0
    with Cons.prems have x: "row_seq x = Some q" by simp
    with Cons.prems(1) have "\<forall>y\<in>set xs. seqAfter q y" by (simp add: seqBefore_def)
    then have "filter (seqAfter q) xs = xs" by simp
    moreover from x have "\<not> seqAfter q x" by (simp add: seqAfter_def)
    ultimately show ?thesis using 0 by simp
  next
    case (Suc j)
    with Cons.prems have j: "j < length xs" "row_seq (xs ! j) = Some q" by simp_all
    from Cons.prems(1) have s: "sorted_wrt seqBefore xs" by simp
    from j(1) have "xs ! j \<in> set xs" by simp
    with Cons.prems(1) have "seqBefore x (xs ! j)" by simp
    with j(2) have "\<not> seqAfter q x"
      by (auto simp: seqBefore_def seqAfter_def split: option.splits)
    with Cons.IH[OF s j] Suc show ?thesis by simp
  qed
qed

lemma feed_after_kth:
  assumes ord: "feedOrdered feed" and k: "k < length (filter (seqAfter c) feed)"
    and q: "row_seq (filter (seqAfter c) feed ! k) = Some q"
  shows "filter (seqAfter q) feed = drop (Suc k) (filter (seqAfter c) feed)"
proof -
  let ?rem = "filter (seqAfter c) feed"
  from ord have s: "sorted_wrt seqBefore ?rem"
    by (simp add: feedOrdered_def sorted_wrt_filter)
  from k have "?rem ! k \<in> set ?rem" by (rule nth_mem)
  then have "seqAfter c (?rem ! k)" by simp
  with q have cq: "c < q" by (simp add: seqAfter_def)
  have "filter (seqAfter q) ?rem = filter (seqAfter q) feed"
    unfolding filter_filter
    by (rule filter_cong) (use cq in \<open>auto simp: seqAfter_Some\<close>)
  with ordered_after_kth[OF s k q] show ?thesis by simp
qed

lemma ordered_last_after:
  assumes "sorted_wrt seqBefore xs" and "filter (seqAfter c) xs \<noteq> []"
  shows "last (filter (seqAfter c) xs) = last xs"
  using assms
proof (induction xs)
  case Nil
  then show ?case by simp
next
  case (Cons x xs)
  show ?case
  proof (cases "seqAfter c x")
    case True
    with Cons.prems(1) have "\<forall>y\<in>set xs. seqAfter c y"
      by (auto simp: seqBefore_def seqAfter_Some split: option.splits)
    then have "filter (seqAfter c) xs = xs" by simp
    with True show ?thesis by simp
  next
    case False
    with Cons.prems have ne: "filter (seqAfter c) xs \<noteq> []" by simp
    then have "xs \<noteq> []" by auto
    with Cons.IH[OF _ ne] Cons.prems(1) False show ?thesis by simp
  qed
qed

section \<open>Windows in which nothing is pushable\<close>

lemma filteredResults_none:
  assumes "\<forall>r\<in>set (results w). \<not> pushable orc h f r"
  shows "filteredResults orc h f w = []"
  using assms by (simp add: filteredResults_def filter_empty_conv)

lemma loop_skip:
  assumes ch: "changes (pouch col) = pouch_changes feed" and ord: "feedOrdered feed"
    and np: "\<forall>r\<in>set (filter (seqAfter s) feed). \<not> pushable orc h f r"
    and b: "0 < b" and full: "b \<le> length (filter (seqAfter s) feed)"
    and q: "row_seq (filter (seqAfter s) feed ! (b - 1)) = Some q"
  shows "retryLoop orc col h f b sync (Some s) fs
           = retryLoop orc col h f b sync (Some q) (fs @ [Some s])"
    and "filter (seqAfter q) feed = drop b (filter (seqAfter s) feed)"
    and "length (results (changes (pouch col) (Some s) b)) = b"
proof -
  let ?rem = "filter (seqAfter s) feed"
  let ?w = "changes (pouch col) (Some s) b"
  have res: "results ?w = take b ?rem" by (simp add: ch pouch_changes_results)
  with full show len: "length (results ?w) = b" by simp
  from b full have ne: "take b ?rem \<noteq> []" by auto
  from b full ne have "last (take b ?rem) = ?rem ! (b - 1)"
    by (simp add: last_conv_nth)
  with q have "row_seq (last (take b ?rem)) = Some q" by simp
  from pouch_changes_last_seq[OF ne this] have ls: "last_seq ?w = q" by (simp add: ch)
  have "\<forall>r\<in>set (results ?w). \<not> pushable orc h f r"
    using np res by (auto dest: in_set_takeD)
  then have "filteredResults orc h f ?w = []" by (rule filteredResults_none)
  then have "useResults col sync (filteredResults orc h f ?w) = Inr []"
    by (simp add: useResults_Nil)
  with len ls show "retryLoop orc col h f b sync (Some s) fs
           = retryLoop orc col h f b sync (Some q) (fs @ [Some s])"
    by (subst retryLoop_step) simp
  from b full have "b - 1 < length ?rem" by arith
  from feed_after_kth[OF ord this q] b
  show "filter (seqAfter q) feed = drop b ?rem" by simp
qed

lemma loop_stop:
  assumes ch: "changes (pouch col) = pouch_changes feed"
    and np: "\<forall>r\<in>set (filter (seqAfter s) feed). \<not> pushable orc h f r"
    and short: "length (filter (seqAfter s) feed) < b"
  shows "retryLoop orc col h f b sync (Some s) fs
           = Some (Inr (\<lparr>results = [], last_seq = last_seq (pouch_changes feed (Some s) b)\<rparr>,
                        fs @ [Some s]))"
    and "length (results (changes (pouch col) (Some s) b)) = length (filter (seqAfter s) feed)"
proof -
  let ?rem = "filter (seqAfter s) feed"
  let ?w = "changes (pouch col) (Some s) b"
  have res: "results ?w = take b ?rem" by (simp add: ch pouch_changes_results)
  with short show len: "length (results ?w) = length ?rem" by simp
  have "\<forall>r\<in>set (results ?w). \<not> pushable orc h f r"
    using np res by (auto dest: in_set_takeD)
  then have "filteredResults orc h f ?w = []" by (rule filteredResults_none)
  then have "useResults col sync (filteredResults orc h f ?w) = Inr []"
    by (simp add: useResults_Nil)
  moreover from len short have "length (results ?w) \<noteq> b" by simp
  moreover have "?w\<lparr>results := []\<rparr> = \<lparr>results = [], last_seq = last_seq (pouch_changes feed (Some s) b)\<rparr>"
    by (simp add: ch)
  ultimately show "retryLoop orc col h f b sync (Some s) fs
           = Some (Inr (\<lparr>results = [], last_seq = last_seq (pouch_changes feed (Some s) b)\<rparr>,
                        fs @ [Some s]))"
    by (subst retryLoop_step) simp
qed

section \<open>Runs on the in-memory store\<close>

lemmas memory_defs =
  memoryCollection_def memoryRow_def memoryOracle_def endsWith_def memoryRev_def memoryGet_def
  rowA_def rowB_def rowC_def rowU_def winnerA_def

lemmas select_defs =
  useResults_def filteredResults_def pushable_def docsSearch_def fromBulkGet_def
  pouch_changes_def seqAfter_def getProp_def fromPouch_def pouchSwapIdToPrimary_def Let_def

lemma memory_cursor:
  "getLastPushSequence ''gql'' (memoryCollection [] feed winners pk) ''h1'' = Some 0"
  by (simp add: getLastPushSequence_def findLocalDocument_def memoryCollection_def)

lemma memory_run_four:
  "getChangesSinceLastPushSequence ''gql'' memoryOracle
     (memoryCollection [] [rowA, rowB, rowC, rowU] [] ''id'') ''h1'' ''last_pulled_rev'' 10 False
   = Some (Inr (\<lparr>results =
        [\<lparr>row_id = ''a'', row_seq = Some 1,
          row_doc = [(''_rev'', JStr ''1-aaa''), (''id'', JStr ''a'')], row_deleted = None\<rparr>,
         \<lparr>row_id = ''c'', row_seq = Some 3,
          row_doc = [(''_rev'', JStr ''1-ccc''), (''id'', JStr ''c'')], row_deleted = None\<rparr>],
        last_seq = 4\<rparr>, [Some 0]))"
  unfolding getChangesSinceLastPushSequence_def memory_cursor
  by (subst retryLoop_step) (simp add: memory_defs select_defs)

lemma memory_run_refresh:
  "getChangesSinceLastPushSequence ''gql'' memoryOracle
     (memoryCollection [] [rowA, rowB] [winnerA] ''id'') ''h1'' ''last_pulled_rev'' 10 True
   = Some (Inr (\<lparr>results =
        [\<lparr>row_id = ''a'', row_seq = None,
          row_doc = [(''_rev'', JStr ''2-aaa''), (''_deleted'', JBool True), (''id'', JStr ''a'')],
          row_deleted = Some (JBool True)\<rparr>],
        last_seq = 2\<rparr>, [Some 0]))"
  unfolding getChangesSinceLastPushSequence_def memory_cursor
  by (subst retryLoop_step) (simp add: memory_defs select_defs)

section \<open>What a returned batch is made of\<close>

lemma pushable_not_pulled:
  "pushable orc h f c \<Longrightarrow> \<not> orc h (getProp (row_doc c) ''_rev'')"
  by (auto simp: pushable_def split: if_splits)

lemma pushable_changed:
  "pushable orc h f c \<Longrightarrow> getProp (row_doc c) f \<noteq> getProp (row_doc c) ''_rev''"
  by (auto simp: pushable_def split: if_splits)

lemma getChanges_results:
  assumes "getChangesSinceLastPushSequence ident orc col h f b sync = Some (Inr (batch, fetched))"
  shows "if sync \<and> filteredResults orc h f (changes (pouch col) (last fetched) b) \<noteq> []
         then \<exists>use. mapResult fromBulkGet (bulkGet (pouch col)
                        (docsSearch (filteredResults orc h f (changes (pouch col) (last fetched) b))))
                      = Inr use \<and>
                    results batch = map (fromPouch col) use
         else results batch = map (fromPouch col)
                (filteredResults orc h f (changes (pouch col) (last fetched) b))"
proof -
  from getChanges_Inr[OF assms] obtain use where
    u: "useResults col sync (filteredResults orc h f (changes (pouch col) (last fetched) b)) = Inr use"
    and r: "results batch = map (fromPouch col) use"
    by blast
  then show ?thesis by (auto simp: useResults_def split: if_splits)
qed

lemma fromBulkGet_Inr:
  assumes "fromBulkGet answer = Inr r"
  shows "\<exists>d rest. bg_docs answer = Ok d # rest \<and>
           r = \<lparr>row_id = bg_id answer, row_seq = None, row_doc = d,
                 row_deleted = getProp d ''_deleted''\<rparr>"
  using assms by (auto simp: fromBulkGet_def split: list.splits bulkget_doc.splits)

lemma mapResult_ids:
  "mapResult fromBulkGet answers = Inr use \<Longrightarrow> map row_id use = map bg_id answers"
proof (induction answers arbitrary: use)
  case Nil
  then show ?case by simp
next
  case (Cons a answers)
  from Cons.prems obtain r rs where
    a: "fromBulkGet a = Inr r" and rs: "mapResult fromBulkGet answers = Inr rs"
    and use: "use = r # rs"
    by (auto split: sum.splits)
  from fromBulkGet_Inr[OF a] have "row_id r = bg_id a" by auto
  with Cons.IH[OF rs] use show ?case by simp
qed

lemma fromPouch_id: "row_id (fromPouch col x) = row_id x"
  by (simp add: fromPouch_def)

lemma getChanges_ids:
  assumes ret: "getChangesSinceLastPushSequence ident orc col h f b sync = Some (Inr (batch, fetched))"
    and asked: "sync \<longrightarrow>
          bg_id ` set (bulkGet (pouch col)
                 (docsSearch (filteredResults orc h f (changes (pouch col) (last fetched) b))))
            \<subseteq> fst ` set (docsSearch (filteredResults orc h f (changes (pouch col) (last fetched) b)))"
  shows "row_id ` set (results batch)
           \<subseteq> row_id ` set (filteredResults orc h f (changes (pouch col) (last fetched) b))"
proof (cases "sync \<and> filteredResults orc h f (changes (pouch col) (last fetched) b) \<noteq> []")
  case True
  let ?sel = "filteredResults orc h f (changes (pouch col) (last fetched) b)"
  from getChanges_results[OF ret] True obtain use where
    m: "mapResult fromBulkGet (bulkGet (pouch col) (docsSearch ?sel)) = Inr use"
    and r: "results batch = map (fromPouch col) use"
    by auto
  from r have "row_id ` set (results batch) = set (map row_id use)"
    by (simp add: image_image fromPouch_id)
  also from mapResult_ids[OF m] have "\<dots> = bg_id ` set (bulkGet (pouch col) (docsSearch ?sel))"
    by simp
  also from asked True have "\<dots> \<subseteq> fst ` set (docsSearch ?sel)" by simp
  also have "fst ` set (docsSearch ?sel) = row_id ` set ?sel"
    by (auto simp: docsSearch_def image_iff)
  finally show ?thesis .
next
  case False
  with getChanges_results[OF ret] have
    "results batch = map (fromPouch col)
       (filteredResults orc h f (changes (pouch col) (last fetched) b))"
    by (simp split: if_splits)
  then show ?thesis by (simp add: image_image fromPouch_id)
qed

lemma filteredResults_subset:
  "set (filteredResults orc h f w) \<subseteq> set (results w)"
  by (auto simp: filteredResults_def)

text \<open>
  With \<open>syncRevisions\<close> the selector does not filter what \<open>bulkGet\<close> answers. Document
  \<open>a\<close> has the local change \<open>rowA\<close> at sequence 1 and, at sequence 2, the change
  \<open>rowA2\<close> whose revision a pull from \<open>h1\<close> wrote. The window of one row holds
  \<open>rowA\<close>, which is selected; its refresh returns the winner, the body of \<open>rowA2\<close>: the
  batch holds a record with the id, the decoded body and the \<open>deleted\<close> of the flagged
  change.
\<close>

theorem loop_prevention_fails_on_refresh:
  "getChangesSinceLastPushSequence ''gql'' memoryOracle
     (memoryCollection [] [rowA, rowA2] [row_doc rowA2] ''id'') ''h1'' ''last_pulled_rev'' 1 True
   = Some (Inr (\<lparr>results =
        [\<lparr>row_id = ''a'', row_seq = None,
          row_doc = [(''_rev'', JStr ''2-aaah1-pulled''), (''id'', JStr ''a'')],
          row_deleted = None\<rparr>],
        last_seq = 1\<rparr>, [Some 0]))
   \<and> rowA2 \<in> set [rowA, rowA2]
   \<and> memoryOracle ''h1'' (getProp (row_doc rowA2) ''_rev'')
   \<and> row_id rowA2 = ''a''
   \<and> row_doc (fromPouch (memoryCollection [] [rowA, rowA2] [row_doc rowA2] ''id'') rowA2)
       = [(''_rev'', JStr ''2-aaah1-pulled''), (''id'', JStr ''a'')]
   \<and> row_deleted rowA2 = None"
proof -
  have run: "getChangesSinceLastPushSequence ''gql'' memoryOracle
     (memoryCollection [] [rowA, rowA2] [row_doc rowA2] ''id'') ''h1'' ''last_pulled_rev'' 1 True
   = Some (Inr (\<lparr>results =
        [\<lparr>row_id = ''a'', row_seq = None,
          row_doc = [(''_rev'', JStr ''2-aaah1-pulled''), (''id'', JStr ''a'')],
          row_deleted = None\<rparr>],
        last_seq = 1\<rparr>, [Some 0]))"
    unfolding getChangesSinceLastPushSequence_def memory_cursor
    by (subst retryLoop_step) (simp add: memory_defs rowA2_def select_defs)
  have rest: "memoryOracle ''h1'' (getProp (row_doc rowA2) ''_rev'')"
    "row_id rowA2 = ''a''"
    "row_doc (fromPouch (memoryCollection [] [rowA, rowA2] [row_doc rowA2] ''id'') rowA2)
       = [(''_rev'', JStr ''2-aaah1-pulled''), (''id'', JStr ''a'')]"
    "row_deleted rowA2 = None"
    by (simp_all add: memory_defs rowA2_def select_defs)
  from run rest show ?thesis by simp
qed

text \<open>
  C1, as the code has it: for every change feed, every batch size and both values of
  \<open>syncRevisions\<close>, a change record whose current revision the oracle reports as
  pull-originated for the endpoint is never among the rows the selector keeps from the
  window, and its revision is never among those it asks of \<open>bulkGet\<close>. Without
  \<open>syncRevisions\<close> the results of the returned batch are exactly the kept rows,
  decoded; with it they are exactly the answers of \<open>bulkGet\<close> to the request built from
  the kept rows, decoded and not filtered again. So no record of the returned batch has
  the id of that change, provided no other row of the window has that id and, with
  \<open>syncRevisions\<close>, \<open>bulkGet\<close> answers only ids that it was asked for.
\<close>

theorem loop_prevention:
  assumes ret: "getChangesSinceLastPushSequence ident orc col h f b sync = Some (Inr (batch, fetched))"
    and pulled: "orc h (getProp (row_doc c) ''_rev'')"
  shows "c \<notin> set (filteredResults orc h f (changes (pouch col) (last fetched) b)) \<and>
         getProp (row_doc c) ''_rev''
           \<notin> snd ` set (docsSearch (filteredResults orc h f (changes (pouch col) (last fetched) b))) \<and>
         (if sync \<and> filteredResults orc h f (changes (pouch col) (last fetched) b) \<noteq> []
          then \<exists>use. mapResult fromBulkGet (bulkGet (pouch col)
                        (docsSearch (filteredResults orc h f (changes (pouch col) (last fetched) b))))
                      = Inr use \<and>
                    results batch = map (fromPouch col) use
          else results batch = map (fromPouch col)
                 (filteredResults orc h f (changes (pouch col) (last fetched) b))) \<and>
         ((\<forall>x\<in>set (results (changes (pouch col) (last fetched) b)). row_id x = row_id c \<longrightarrow> x = c) \<and>
          (sync \<longrightarrow>
             bg_id ` set (bulkGet (pouch col)
                    (docsSearch (filteredResults orc h f (changes (pouch col) (last fetched) b))))
               \<subseteq> fst ` set (docsSearch (filteredResults orc h f (changes (pouch col) (last fetched) b))))
          \<longrightarrow> row_id c \<notin> row_id ` set (results batch))"
proof -
  let ?w = "changes (pouch col) (last fetched) b"
  let ?sel = "filteredResults orc h f ?w"
  have sel: "\<not> orc h (getProp (row_doc x) ''_rev'')" if "x \<in> set ?sel" for x
    using that by (auto simp: filteredResults_def dest: pushable_not_pulled)
  from sel pulled have notin: "c \<notin> set ?sel" by blast
  from sel pulled have rev: "getProp (row_doc c) ''_rev'' \<notin> snd ` set (docsSearch ?sel)"
    by (auto simp: docsSearch_def)
  have ids: "row_id c \<notin> row_id ` set (results batch)"
    if own: "\<forall>x\<in>set (results ?w). row_id x = row_id c \<longrightarrow> x = c"
      and asked: "sync \<longrightarrow> bg_id ` set (bulkGet (pouch col) (docsSearch ?sel))
                             \<subseteq> fst ` set (docsSearch ?sel)"
  proof
    assume "row_id c \<in> row_id ` set (results batch)"
    with getChanges_ids[OF ret asked] obtain x where x: "x \<in> set ?sel" "row_id x = row_id c"
      by auto
    from x(1) filteredResults_subset have "x \<in> set (results ?w)" by blast
    with own x(2) have "x = c" by blast
    with x(1) notin show False by simp
  qed
  from notin rev ids getChanges_results[OF ret] show ?thesis by simp
qed

theorem loop_prevention_witness:
  "getChangesSinceLastPushSequence ''gql'' memoryOracle
     (memoryCollection [] [rowA, rowB, rowC, rowU] [] ''id'') ''h1'' ''last_pulled_rev'' 10 False
   = Some (Inr (\<lparr>results =
        [\<lparr>row_id = ''a'', row_seq = Some 1,
          row_doc = [(''_rev'', JStr ''1-aaa''), (''id'', JStr ''a'')], row_deleted = None\<rparr>,
         \<lparr>row_id = ''c'', row_seq = Some 3,
          row_doc = [(''_rev'', JStr ''1-ccc''), (''id'', JStr ''c'')], row_deleted = None\<rparr>],
        last_seq = 4\<rparr>, [Some 0]))
   \<and> memoryOracle ''h1'' (getProp (row_doc rowB) ''_rev'')
   \<and> rowB \<notin> set (filteredResults memoryOracle ''h1'' ''last_pulled_rev''
         (changes (pouch (memoryCollection [] [rowA, rowB, rowC, rowU] [] ''id'')) (last [Some 0]) 10))
   \<and> row_id rowB \<notin> row_id ` set
        [\<lparr>row_id = ''a'', row_seq = Some 1,
          row_doc = [(''_rev'', JStr ''1-aaa''), (''id'', JStr ''a'')], row_deleted = None\<rparr>,
         \<lparr>row_id = ''c'', row_seq = Some 3,
          row_doc = [(''_rev'', JStr ''1-ccc''), (''id'', JStr ''c'')], row_deleted = None\<rparr>]
   \<and> getChangesSinceLastPushSequence ''gql'' memoryOracle
       (memoryCollection [] [rowA, rowB] [winnerA] ''id'') ''h1'' ''last_pulled_rev'' 10 True
     = Some (Inr (\<lparr>results =
        [\<lparr>row_id = ''a'', row_seq = None,
          row_doc = [(''_rev'', JStr ''2-aaa''), (''_deleted'', JBool True), (''id'', JStr ''a'')],
          row_deleted = Some (JBool True)\<rparr>],
        last_seq = 2\<rparr>, [Some 0]))
   \<and> row_id rowB \<notin> row_id ` set
        [\<lparr>row_id = ''a'', row_seq = None,
          row_doc = [(''_rev'', JStr ''2-aaa''), (''_deleted'', JBool True), (''id'', JStr ''a'')],
          row_deleted = Some (JBool True)\<rparr>]"
proof -
  have pulled: "memoryOracle ''h1'' (getProp (row_doc rowB) ''_rev'')"
    by (simp add: memory_defs getProp_def)
  have id: "row_id rowB = ''b''" by (simp add: memory_defs)
  have ids: "row_id rowB \<notin> row_id ` set
        [\<lparr>row_id = ''a'', row_seq = Some 1,
          row_doc = [(''_rev'', JStr ''1-aaa''), (''id'', JStr ''a'')], row_deleted = None\<rparr>,
         \<lparr>row_id = ''c'', row_seq = Some 3,
          row_doc = [(''_rev'', JStr ''1-ccc''), (''id'', JStr ''c'')], row_deleted = None\<rparr>]"
  proof -
    have own: "\<forall>x\<in>set (results (changes
          (pouch (memoryCollection [] [rowA, rowB, rowC, rowU] [] ''id'')) (last [Some 0]) 10)).
        row_id x = row_id rowB \<longrightarrow> x = rowB"
      by (simp add: memory_defs select_defs)
    with loop_prevention[OF memory_run_four pulled]
    have "row_id rowB \<notin> row_id ` set (results \<lparr>results =
        [\<lparr>row_id = ''a'', row_seq = Some 1,
          row_doc = [(''_rev'', JStr ''1-aaa''), (''id'', JStr ''a'')], row_deleted = None\<rparr>,
         \<lparr>row_id = ''c'', row_seq = Some 3,
          row_doc = [(''_rev'', JStr ''1-ccc''), (''id'', JStr ''c'')], row_deleted = None\<rparr>],
        last_seq = 4\<rparr>)"
      by blast
    then show ?thesis by simp
  qed
  have ids_refresh: "row_id rowB \<notin> row_id ` set
        [\<lparr>row_id = ''a'', row_seq = None,
          row_doc = [(''_rev'', JStr ''2-aaa''), (''_deleted'', JBool True), (''id'', JStr ''a'')],
          row_deleted = Some (JBool True)\<rparr>]"
  proof -
    let ?col = "memoryCollection [] [rowA, rowB] [winnerA] ''id''"
    have own: "\<forall>x\<in>set (results (changes (pouch ?col) (last [Some 0]) 10)).
        row_id x = row_id rowB \<longrightarrow> x = rowB"
      by (simp add: memory_defs select_defs)
    have asked: "True \<longrightarrow>
        bg_id ` set (bulkGet (pouch ?col)
           (docsSearch (filteredResults memoryOracle ''h1'' ''last_pulled_rev''
              (changes (pouch ?col) (last [Some 0]) 10))))
        \<subseteq> fst ` set (docsSearch (filteredResults memoryOracle ''h1'' ''last_pulled_rev''
              (changes (pouch ?col) (last [Some 0]) 10)))"
      by (simp add: memory_defs select_defs)
    from loop_prevention[OF memory_run_refresh pulled] own asked
    have "row_id rowB \<notin> row_id ` set (results \<lparr>results =
        [\<lparr>row_id = ''a'', row_seq = None,
          row_doc = [(''_rev'', JStr ''2-aaa''), (''_deleted'', JBool True), (''id'', JStr ''a'')],
          row_deleted = Some (JBool True)\<rparr>],
        last_seq = 2\<rparr>)"
      by blast
    then show ?thesis by simp
  qed
  note kept = loop_prevention[OF memory_run_four pulled, THEN conjunct1]
  show ?thesis
    by (intro conjI memory_run_four pulled kept ids memory_run_refresh ids_refresh)
qed

text \<open>
  The same holds of an unchanged pulled document. Document \<open>a\<close> has the local change
  \<open>rowA\<close> at sequence 1 and, at sequence 2, the change \<open>rowA3\<close> whose
  \<open>last_pulled_rev\<close> is its revision and which the oracle does not flag. With
  \<open>syncRevisions\<close> the refresh of \<open>rowA\<close> returns the body of \<open>rowA3\<close>, and the
  batch holds it.
\<close>

theorem no_repush_fails_on_refresh:
  "getChangesSinceLastPushSequence ''gql'' memoryOracle
     (memoryCollection [] [rowA, rowA3] [row_doc rowA3] ''id'') ''h1'' ''last_pulled_rev'' 1 True
   = Some (Inr (\<lparr>results =
        [\<lparr>row_id = ''a'', row_seq = None,
          row_doc = [(''_rev'', JStr ''3-aaa''), (''last_pulled_rev'', JStr ''3-aaa''),
                     (''id'', JStr ''a'')],
          row_deleted = None\<rparr>],
        last_seq = 1\<rparr>, [Some 0]))
   \<and> rowA3 \<in> set [rowA, rowA3]
   \<and> getProp (row_doc rowA3) ''last_pulled_rev'' = getProp (row_doc rowA3) ''_rev''
   \<and> \<not> memoryOracle ''h1'' (getProp (row_doc rowA3) ''_rev'')
   \<and> row_id rowA3 = ''a''
   \<and> row_doc (fromPouch (memoryCollection [] [rowA, rowA3] [row_doc rowA3] ''id'') rowA3)
       = [(''_rev'', JStr ''3-aaa''), (''last_pulled_rev'', JStr ''3-aaa''), (''id'', JStr ''a'')]
   \<and> row_deleted rowA3 = None"
proof -
  have run: "getChangesSinceLastPushSequence ''gql'' memoryOracle
     (memoryCollection [] [rowA, rowA3] [row_doc rowA3] ''id'') ''h1'' ''last_pulled_rev'' 1 True
   = Some (Inr (\<lparr>results =
        [\<lparr>row_id = ''a'', row_seq = None,
          row_doc = [(''_rev'', JStr ''3-aaa''), (''last_pulled_rev'', JStr ''3-aaa''),
                     (''id'', JStr ''a'')],
          row_deleted = None\<rparr>],
        last_seq = 1\<rparr>, [Some 0]))"
    unfolding getChangesSinceLastPushSequence_def memory_cursor
    by (subst retryLoop_step) (simp add: memory_defs rowA3_def select_defs)
  have rest: "getProp (row_doc rowA3) ''last_pulled_rev'' = getProp (row_doc rowA3) ''_rev''"
    "\<not> memoryOracle ''h1'' (getProp (row_doc rowA3) ''_rev'')"
    "row_id rowA3 = ''a''"
    "row_doc (fromPouch (memoryCollection [] [rowA, rowA3] [row_doc rowA3] ''id'') rowA3)
       = [(''_rev'', JStr ''3-aaa''), (''last_pulled_rev'', JStr ''3-aaa''), (''id'', JStr ''a'')]"
    "row_deleted rowA3 = None"
    by (simp_all add: memory_defs rowA3_def select_defs)
  from run rest show ?thesis by simp
qed

text \<open>
  C2, as the code has it: for every change record whose document body has
  \<open>lastPulledRevField\<close> equal to its \<open>_rev\<close>, whatever the oracle says about that
  revision, the record is never among the rows the selector keeps from the window.
  Without \<open>syncRevisions\<close> the results of the returned batch are exactly the kept rows,
  decoded; with it they are exactly the answers of \<open>bulkGet\<close> to the request built from
  the kept rows, decoded and not filtered again. So no record of the returned batch has
  the id of that change, provided no other row of the window has that id and, with
  \<open>syncRevisions\<close>, \<open>bulkGet\<close> answers only ids that it was asked for.
\<close>

theorem no_repush_of_unchanged_pulled:
  assumes ret: "getChangesSinceLastPushSequence ident orc col h f b sync = Some (Inr (batch, fetched))"
    and unchanged: "getProp (row_doc c) f = getProp (row_doc c) ''_rev''"
  shows "c \<notin> set (filteredResults orc h f (changes (pouch col) (last fetched) b)) \<and>
         (if sync \<and> filteredResults orc h f (changes (pouch col) (last fetched) b) \<noteq> []
          then \<exists>use. mapResult fromBulkGet (bulkGet (pouch col)
                        (docsSearch (filteredResults orc h f (changes (pouch col) (last fetched) b))))
                      = Inr use \<and>
                    results batch = map (fromPouch col) use
          else results batch = map (fromPouch col)
                 (filteredResults orc h f (changes (pouch col) (last fetched) b))) \<and>
         ((\<forall>x\<in>set (results (changes (pouch col) (last fetched) b)). row_id x = row_id c \<longrightarrow> x = c) \<and>
          (sync \<longrightarrow>
             bg_id ` set (bulkGet (pouch col)
                    (docsSearch (filteredResults orc h f (changes (pouch col) (last fetched) b))))
               \<subseteq> fst ` set (docsSearch (filteredResults orc h f (changes (pouch col) (last fetched) b))))
          \<longrightarrow> row_id c \<notin> row_id ` set (results batch))"
proof -
  let ?w = "changes (pouch col) (last fetched) b"
  let ?sel = "filteredResults orc h f ?w"
  have "getProp (row_doc x) f \<noteq> getProp (row_doc x) ''_rev''" if "x \<in> set ?sel" for x
    using that by (auto simp: filteredResults_def dest: pushable_changed)
  with unchanged have notin: "c \<notin> set ?sel" by blast
  have ids: "row_id c \<notin> row_id ` set (results batch)"
    if own: "\<forall>x\<in>set (results ?w). row_id x = row_id c \<longrightarrow> x = c"
      and asked: "sync \<longrightarrow> bg_id ` set (bulkGet (pouch col) (docsSearch ?sel))
                             \<subseteq> fst ` set (docsSearch ?sel)"
  proof
    assume "row_id c \<in> row_id ` set (results batch)"
    with getChanges_ids[OF ret asked] obtain x where x: "x \<in> set ?sel" "row_id x = row_id c"
      by auto
    from x(1) filteredResults_subset have "x \<in> set (results ?w)" by blast
    with own x(2) have "x = c" by blast
    with x(1) notin show False by simp
  qed
  from notin ids getChanges_results[OF ret] show ?thesis by simp
qed

lemma memory_run_refresh_unchanged:
  "getChangesSinceLastPushSequence ''gql'' memoryOracle
     (memoryCollection [] [rowA, rowU] [winnerA] ''id'') ''h1'' ''last_pulled_rev'' 10 True
   = Some (Inr (\<lparr>results =
        [\<lparr>row_id = ''a'', row_seq = None,
          row_doc = [(''_rev'', JStr ''2-aaa''), (''_deleted'', JBool True), (''id'', JStr ''a'')],
          row_deleted = Some (JBool True)\<rparr>],
        last_seq = 4\<rparr>, [Some 0]))"
  unfolding getChangesSinceLastPushSequence_def memory_cursor
  by (subst retryLoop_step) (simp add: memory_defs select_defs)

theorem no_repush_of_unchanged_pulled_witness:
  "getChangesSinceLastPushSequence ''gql'' memoryOracle
     (memoryCollection [] [rowA, rowB, rowC, rowU] [] ''id'') ''h1'' ''last_pulled_rev'' 10 False
   = Some (Inr (\<lparr>results =
        [\<lparr>row_id = ''a'', row_seq = Some 1,
          row_doc = [(''_rev'', JStr ''1-aaa''), (''id'', JStr ''a'')], row_deleted = None\<rparr>,
         \<lparr>row_id = ''c'', row_seq = Some 3,
          row_doc = [(''_rev'', JStr ''1-ccc''), (''id'', JStr ''c'')], row_deleted = None\<rparr>],
        last_seq = 4\<rparr>, [Some 0]))
   \<and> getProp (row_doc rowU) ''last_pulled_rev'' = getProp (row_doc rowU) ''_rev''
   \<and> \<not> memoryOracle ''h1'' (getProp (row_doc rowU) ''_rev'')
   \<and> rowU \<notin> set (filteredResults memoryOracle ''h1'' ''last_pulled_rev''
         (changes (pouch (memoryCollection [] [rowA, rowB, rowC, rowU] [] ''id'')) (last [Some 0]) 10))
   \<and> row_id rowU \<notin> row_id ` set
        [\<lparr>row_id = ''a'', row_seq = Some 1,
          row_doc = [(''_rev'', JStr ''1-aaa''), (''id'', JStr ''a'')], row_deleted = None\<rparr>,
         \<lparr>row_id = ''c'', row_seq = Some 3,
          row_doc = [(''_rev'', JStr ''1-ccc''), (''id'', JStr ''c'')], row_deleted = None\<rparr>]
   \<and> getChangesSinceLastPushSequence ''gql'' memoryOracle
       (memoryCollection [] [rowA, rowU] [winnerA] ''id'') ''h1'' ''last_pulled_rev'' 10 True
     = Some (Inr (\<lparr>results =
        [\<lparr>row_id = ''a'', row_seq = None,
          row_doc = [(''_rev'', JStr ''2-aaa''), (''_deleted'', JBool True), (''id'', JStr ''a'')],
          row_deleted = Some (JBool True)\<rparr>],
        last_seq = 4\<rparr>, [Some 0]))
   \<and> row_id rowU \<notin> row_id ` set
        [\<lparr>row_id = ''a'', row_seq = None,
          row_doc = [(''_rev'', JStr ''2-aaa''), (''_deleted'', JBool True), (''id'', JStr ''a'')],
          row_deleted = Some (JBool True)\<rparr>]"
proof -
  have unchanged: "getProp (row_doc rowU) ''last_pulled_rev'' = getProp (row_doc rowU) ''_rev''"
    by (simp add: memory_defs getProp_def)
  have unflagged: "\<not> memoryOracle ''h1'' (getProp (row_doc rowU) ''_rev'')"
    by (simp add: memory_defs getProp_def)
  have ids: "row_id rowU \<notin> row_id ` set
        [\<lparr>row_id = ''a'', row_seq = Some 1,
          row_doc = [(''_rev'', JStr ''1-aaa''), (''id'', JStr ''a'')], row_deleted = None\<rparr>,
         \<lparr>row_id = ''c'', row_seq = Some 3,
          row_doc = [(''_rev'', JStr ''1-ccc''), (''id'', JStr ''c'')], row_deleted = None\<rparr>]"
  proof -
    have own: "\<forall>x\<in>set (results (changes
          (pouch (memoryCollection [] [rowA, rowB, rowC, rowU] [] ''id'')) (last [Some 0]) 10)).
        row_id x = row_id rowU \<longrightarrow> x = rowU"
      by (simp add: memory_defs select_defs)
    with no_repush_of_unchanged_pulled[OF memory_run_four unchanged]
    have "row_id rowU \<notin> row_id ` set (results \<lparr>results =
        [\<lparr>row_id = ''a'', row_seq = Some 1,
          row_doc = [(''_rev'', JStr ''1-aaa''), (''id'', JStr ''a'')], row_deleted = None\<rparr>,
         \<lparr>row_id = ''c'', row_seq = Some 3,
          row_doc = [(''_rev'', JStr ''1-ccc''), (''id'', JStr ''c'')], row_deleted = None\<rparr>],
        last_seq = 4\<rparr>)"
      by blast
    then show ?thesis by simp
  qed
  have ids_refresh: "row_id rowU \<notin> row_id ` set
        [\<lparr>row_id = ''a'', row_seq = None,
          row_doc = [(''_rev'', JStr ''2-aaa''), (''_deleted'', JBool True), (''id'', JStr ''a'')],
          row_deleted = Some (JBool True)\<rparr>]"
  proof -
    let ?col = "memoryCollection [] [rowA, rowU] [winnerA] ''id''"
    have own: "\<forall>x\<in>set (results (changes (pouch ?col) (last [Some 0]) 10)).
        row_id x = row_id rowU \<longrightarrow> x = rowU"
      by (simp add: memory_defs select_defs)
    have asked: "True \<longrightarrow>
        bg_id ` set (bulkGet (pouch ?col)
           (docsSearch (filteredResults memoryOracle ''h1'' ''last_pulled_rev''
              (changes (pouch ?col) (last [Some 0]) 10))))
        \<subseteq> fst ` set (docsSearch (filteredResults memoryOracle ''h1'' ''last_pulled_rev''
              (changes (pouch ?col) (last [Some 0]) 10)))"
      by (simp add: memory_defs select_defs)
    from no_repush_of_unchanged_pulled[OF memory_run_refresh_unchanged unchanged] own asked
    have "row_id rowU \<notin> row_id ` set (results \<lparr>results =
        [\<lparr>row_id = ''a'', row_seq = None,
          row_doc = [(''_rev'', JStr ''2-aaa''), (''_deleted'', JBool True), (''id'', JStr ''a'')],
          row_deleted = Some (JBool True)\<rparr>],
        last_seq = 4\<rparr>)"
      by blast
    then show ?thesis by simp
  qed
  note kept = no_repush_of_unchanged_pulled[OF memory_run_four unchanged, THEN conjunct1]
  show ?thesis
    by (intro conjI memory_run_four unchanged unflagged kept ids
        memory_run_refresh_unchanged ids_refresh)
qed

section \<open>Revision refresh and primary keys\<close>


lemma mapResult_all_Inr:
  "list_all2 (\<lambda>x y. g y = Inr (k x)) xs ys \<Longrightarrow> mapResult g ys = Inr (map k xs)"
  by (induction xs ys rule: list_all2_induct) auto

text \<open>
  C8: when \<open>syncRevisions\<close> is true and the loop comes to a window whose filtered
  result is not empty, the selector asks \<open>bulkGet\<close> for each selected change by id and
  revision; where \<open>bulkGet\<close> answers each of them, in order, with the freshly fetched
  winning body \<open>fresh c\<close>, the selector returns: one record for each selected change,
  in order, with the change's id, the fetched body (decoded and with its primary key
  swapped) in place of the feed's body, and \<open>deleted\<close> read from the fetched body's
  \<open>_deleted\<close>; and the \<open>last_seq\<close> of that window.
\<close>

theorem revision_refresh:
  assumes chain: "fetchChain orc col h f b True (getLastPushSequence ident col h) tr"
    and sel: "filteredResults orc h f (changes (pouch col) (last tr) b) \<noteq> []"
    and answers:
      "list_all2 (\<lambda>c answer. bg_id answer = row_id c \<and> (\<exists>rest. bg_docs answer = Ok (fresh c) # rest))
         (filteredResults orc h f (changes (pouch col) (last tr) b))
         (bulkGet (pouch col)
            (map (\<lambda>c. (row_id c, getProp (row_doc c) ''_rev''))
               (filteredResults orc h f (changes (pouch col) (last tr) b))))"
  shows "getChangesSinceLastPushSequence ident orc col h f b True
           = Some (Inr (\<lparr>results =
                map (\<lambda>c. \<lparr>row_id = row_id c, row_seq = None,
                            row_doc = pouchSwapIdToPrimary (primaryPath col)
                                        (handleFromPouch col (fresh c)),
                            row_deleted = getProp (fresh c) ''_deleted''\<rparr>)
                  (filteredResults orc h f (changes (pouch col) (last tr) b)),
                last_seq = last_seq (changes (pouch col) (last tr) b)\<rparr>, tr))"
proof -
  let ?w = "changes (pouch col) (last tr) b"
  let ?sel = "filteredResults orc h f ?w"
  let ?row = "\<lambda>c. \<lparr>row_id = row_id c, row_seq = None, row_doc = fresh c,
                     row_deleted = getProp (fresh c) ''_deleted''\<rparr>"
  from answers have "list_all2 (\<lambda>c answer. fromBulkGet answer = Inr (?row c)) ?sel
      (bulkGet (pouch col) (docsSearch ?sel))"
    unfolding docsSearch_def
    by (rule list_all2_mono) (auto simp: fromBulkGet_def)
  then have "mapResult fromBulkGet (bulkGet (pouch col) (docsSearch ?sel)) = Inr (map ?row ?sel)"
    by (rule mapResult_all_Inr)
  with sel have use: "useResults col True ?sel = Inr (map ?row ?sel)"
    by (simp add: useResults_def)
  from sel have ne: "map ?row ?sel \<noteq> []" by simp
  have "retryLoop orc col h f b True (getLastPushSequence ident col h) []
      = Some (Inr (?w\<lparr>results := map ?row ?sel\<rparr>, tr))"
    using ne by (simp add: fetchChain_run[OF chain] use)
  then show ?thesis
    by (simp add: getChangesSinceLastPushSequence_def fromPouch_def comp_def)
qed

theorem revision_refresh_witness:
  "getChangesSinceLastPushSequence ''gql'' memoryOracle
     (memoryCollection [] [rowA, rowB] [winnerA] ''id'') ''h1'' ''last_pulled_rev'' 10 True
   = Some (Inr (\<lparr>results =
        [\<lparr>row_id = ''a'', row_seq = None,
          row_doc = [(''_rev'', JStr ''2-aaa''), (''_deleted'', JBool True), (''id'', JStr ''a'')],
          row_deleted = Some (JBool True)\<rparr>],
        last_seq = 2\<rparr>, [Some 0]))
   \<and> filteredResults memoryOracle ''h1'' ''last_pulled_rev''
         (changes (pouch (memoryCollection [] [rowA, rowB] [winnerA] ''id'')) (last [Some 0]) 10)
       = [rowA]
   \<and> getProp (row_doc rowA) ''_rev'' = Some (JStr ''1-aaa'')
   \<and> bulkGet (pouch (memoryCollection [] [rowA, rowB] [winnerA] ''id''))
         [(''a'', Some (JStr ''1-aaa''))]
       = [\<lparr>bg_id = ''a'', bg_docs = [Ok winnerA]\<rparr>]"
proof -
  let ?col = "memoryCollection [] [rowA, rowB] [winnerA] ''id''"
  have chain: "fetchChain memoryOracle ?col ''h1'' ''last_pulled_rev'' 10 True
      (getLastPushSequence ''gql'' ?col ''h1'') [Some 0]"
    by (simp add: memory_cursor)
  have sel: "filteredResults memoryOracle ''h1'' ''last_pulled_rev''
         (changes (pouch ?col) (last [Some 0]) 10) = [rowA]"
    by (simp add: memory_defs select_defs)
  have rev: "getProp (row_doc rowA) ''_rev'' = Some (JStr ''1-aaa'')"
    by (simp add: memory_defs getProp_def)
  have bulk: "bulkGet (pouch ?col) [(''a'', Some (JStr ''1-aaa''))]
       = [\<lparr>bg_id = ''a'', bg_docs = [Ok winnerA]\<rparr>]"
    by (simp add: memory_defs getProp_def)
  have id: "row_id rowA = ''a''" by (simp add: memory_defs)
  have ne: "filteredResults memoryOracle ''h1'' ''last_pulled_rev''
         (changes (pouch ?col) (last [Some 0]) 10) \<noteq> []"
    by (simp only: sel) simp
  have answers:
    "list_all2 (\<lambda>c answer. bg_id answer = row_id c \<and> (\<exists>rest. bg_docs answer = Ok ((\<lambda>c. winnerA) c) # rest))
         (filteredResults memoryOracle ''h1'' ''last_pulled_rev'' (changes (pouch ?col) (last [Some 0]) 10))
         (bulkGet (pouch ?col)
            (map (\<lambda>c. (row_id c, getProp (row_doc c) ''_rev''))
               (filteredResults memoryOracle ''h1'' ''last_pulled_rev''
                  (changes (pouch ?col) (last [Some 0]) 10))))"
    by (simp only: sel list.map rev id bulk) (simp add: id)
  from revision_refresh[OF chain ne answers] sel rev bulk
  show ?thesis
    by (simp add: memory_defs select_defs)
qed



section \<open>Progress when every change is filtered out\<close>

lemma filteredRow_seq: "row_seq (filteredRow q) = Some q"
  by (simp add: filteredRow_def memoryRow_def)

lemma filteredRow_not_pushable:
  "\<not> pushable memoryOracle ''h1'' ''last_pulled_rev'' (filteredRow q)"
  by (simp add: filteredRow_def memoryRow_def memoryOracle_def endsWith_def pushable_def
      getProp_def)

lemma filteredRows_ordered: "feedOrdered (map filteredRow [1..<26])"
proof -
  have "seqBefore (filteredRow p) (filteredRow q) = (p < q)" for p q
    by (simp add: seqBefore_def seqAfter_def filteredRow_seq)
  then show ?thesis
    by (simp only: feedOrdered_def sorted_wrt_map sorted_wrt_upt)
qed

lemma filteredRows_after_0:
  "filter (seqAfter 0) (map filteredRow [1..<26]) = map filteredRow [1..<26]"
proof -
  have "\<forall>r\<in>set (map filteredRow [1..<26]). seqAfter 0 r"
    by (auto simp: seqAfter_def filteredRow_seq)
  then show ?thesis by (simp only: filter_True)
qed

text \<open>
  C3: on an ordered feed that holds exactly 25 raw changes after the push checkpoint, all
  of them dropped by the filter, \<open>getChangesSinceLastPushSequence\<close> with
  \<open>batchSize = 10\<close> returns, without an error, an empty result list and the
  sequence of the feed's last row as \<open>last_seq\<close>, after exactly three fetches, whose
  windows hold 10, 10 and 5 raw changes.
\<close>

theorem progress_under_total_filtering:
  assumes ch: "changes (pouch col) = pouch_changes feed" and ord: "feedOrdered feed"
    and cur: "getLastPushSequence ident col h = Some c"
    and n: "length (filter (seqAfter c) feed) = 25"
    and np: "\<forall>r\<in>set (filter (seqAfter c) feed). \<not> pushable orc h f r"
  shows "\<exists>c1 c2 q.
           getChangesSinceLastPushSequence ident orc col h f 10 sync
             = Some (Inr (\<lparr>results = [], last_seq = q\<rparr>, [Some c, Some c1, Some c2])) \<and>
           row_seq (last feed) = Some q \<and>
           map (\<lambda>s. length (results (changes (pouch col) s 10))) [Some c, Some c1, Some c2]
             = [10, 10, 5]"
proof -
  let ?rem = "filter (seqAfter c) feed"
  have has_seq: "\<exists>q. row_seq (?rem ! k) = Some q" if "k < 25" for k
  proof -
    from that n have "k < length ?rem" by simp
    then have "?rem ! k \<in> set ?rem" by (rule nth_mem)
    then have "seqAfter c (?rem ! k)" by simp
    then show ?thesis by (auto simp: seqAfter_Some)
  qed
  from has_seq[of 9] obtain c1 where c1: "row_seq (?rem ! (10 - 1)) = Some c1" by auto
  from has_seq[of 19] obtain c2 where c2: "row_seq (?rem ! 19) = Some c2" by auto
  from has_seq[of 24] obtain q where q: "row_seq (?rem ! 24) = Some q" by auto
  note s1 = loop_skip[OF ch ord np _ _ c1]
  from n have f1: "filter (seqAfter c1) feed = drop 10 ?rem" by (simp add: s1(2))
  have np1: "\<forall>r\<in>set (filter (seqAfter c1) feed). \<not> pushable orc h f r"
    unfolding f1 using np by (auto dest: in_set_dropD)
  from n c2 have c2': "row_seq (filter (seqAfter c1) feed ! (10 - 1)) = Some c2"
    by (simp add: f1)
  note s2 = loop_skip[OF ch ord np1 _ _ c2']
  from n have f2: "filter (seqAfter c2) feed = drop 20 ?rem" by (simp add: s2(2) f1)
  have np2: "\<forall>r\<in>set (filter (seqAfter c2) feed). \<not> pushable orc h f r"
    unfolding f2 using np by (auto dest: in_set_dropD)
  from n have short: "length (filter (seqAfter c2) feed) < 10" by (simp add: f2)
  note s3 = loop_stop[OF ch np2 short]
  from n have ne: "?rem \<noteq> []" by auto
  from n have lastrem: "last ?rem = ?rem ! 24" by (simp add: last_conv_nth ne)
  have "take 10 (drop 20 ?rem) = drop 20 ?rem" using n by simp
  moreover have "drop 20 ?rem \<noteq> []" using n by simp
  moreover have "last (drop 20 ?rem) = last ?rem" using n by simp
  ultimately have ls: "last_seq (pouch_changes feed (Some c2) 10) = q"
    using pouch_changes_last_seq[of 10 c2 feed q] q lastrem by (simp add: f2)
  from ord ne have "last ?rem = last feed"
    unfolding feedOrdered_def by (rule ordered_last_after)
  with lastrem q have lastfeed: "row_seq (last feed) = Some q" by simp
  have loop: "retryLoop orc col h f 10 sync (Some c) []
        = Some (Inr (\<lparr>results = [], last_seq = q\<rparr>, [Some c, Some c1, Some c2]))"
    using n s1(1) s2(1) s3(1) ls by (simp add: f1)
  have lens: "map (\<lambda>s. length (results (changes (pouch col) s 10))) [Some c, Some c1, Some c2]
             = [10, 10, 5]"
    using n s1(3) s2(3) s3(2) by (simp add: f1 f2)
  from loop cur have g: "getChangesSinceLastPushSequence ident orc col h f 10 sync
             = Some (Inr (\<lparr>results = [], last_seq = q\<rparr>, [Some c, Some c1, Some c2]))"
    by (simp add: getChangesSinceLastPushSequence_def)
  from g lastfeed lens show ?thesis
    by - (rule exI[of _ c1], rule exI[of _ c2], rule exI[of _ q], simp)
qed

theorem progress_under_total_filtering_witness:
  "\<exists>c1 c2. getChangesSinceLastPushSequence ''gql'' memoryOracle
       (memoryCollection [] (map filteredRow [1..<26]) [] ''id'') ''h1'' ''last_pulled_rev'' 10 True
     = Some (Inr (\<lparr>results = [], last_seq = 25\<rparr>, [Some 0, Some c1, Some c2]))"
proof -
  let ?feed = "map filteredRow [1..<26]"
  let ?col = "memoryCollection [] ?feed [] ''id''"
  have ch: "changes (pouch ?col) = pouch_changes ?feed"
    by (simp add: memoryCollection_def)
  have n: "length (filter (seqAfter 0) ?feed) = 25"
    by (simp only: filteredRows_after_0) simp
  have np: "\<forall>r\<in>set (filter (seqAfter 0) ?feed). \<not> pushable memoryOracle ''h1'' ''last_pulled_rev'' r"
    by (simp only: filteredRows_after_0) (auto simp: filteredRow_not_pushable)
  have "last ?feed = filteredRow 25"
    by (simp add: last_map)
  then have lastseq: "row_seq (last ?feed) = Some 25"
    by (simp only: filteredRow_seq)
  from progress_under_total_filtering[OF ch filteredRows_ordered memory_cursor n np, of True] lastseq
  show ?thesis by auto
qed

section \<open>The selector returns\<close>

lemma memory_run_retry:
  "getChangesSinceLastPushSequence ''gql'' memoryOracle
     (memoryCollection [] [filteredRow 1, filteredRow 2, rowC] [] ''id'') ''h1'' ''last_pulled_rev'' 2 False
   = Some (Inr (\<lparr>results =
        [\<lparr>row_id = ''c'', row_seq = Some 3,
          row_doc = [(''_rev'', JStr ''1-ccc''), (''id'', JStr ''c'')], row_deleted = None\<rparr>],
        last_seq = 3\<rparr>, [Some 0, Some 2]))"
  unfolding getChangesSinceLastPushSequence_def memory_cursor
  by (simp add: retryLoop_step memory_defs select_defs filteredRow_def)

text \<open>
  C4: on every feed with an end (from some cursor on, a fetch is not full), whose fetches
  return at most \<open>batchSize\<close> rows and move \<open>last_seq\<close> strictly past the cursor
  whenever they return a full window, \<open>getChangesSinceLastPushSequence\<close> returns.
  When it returns a batch, it fetched along a chain of cursors from the push checkpoint,
  in which every window but the last was full and left nothing to use; the batch holds
  what the last window gives to use, decoded, and that window's \<open>last_seq\<close>; and the
  last window held a pushable change or was not full. When it returns an error, that is
  the error of the revision refresh on a window, reached along such a chain, that held a
  pushable change: a window that is empty after the filter is never an error.
\<close>

theorem retry_loop_terminates:
  assumes atmost: "\<forall>s. length (results (changes (pouch col) s b)) \<le> b"
    and exhausted: "\<forall>s\<ge>N. length (results (changes (pouch col) (Some s) b)) < b"
    and advance: "\<forall>s. length (results (changes (pouch col) (Some s) b)) = b
                    \<longrightarrow> s < last_seq (changes (pouch col) (Some s) b)"
  shows "\<exists>y. getChangesSinceLastPushSequence ident orc col h f b sync = Some y \<and>
           (case y of
              Inr (batch, fetched) \<Rightarrow>
                fetchChain orc col h f b sync (getLastPushSequence ident col h) fetched \<and>
                (\<exists>use. useResults col sync
                          (filteredResults orc h f (changes (pouch col) (last fetched) b)) = Inr use \<and>
                       results batch = map (fromPouch col) use) \<and>
                last_seq batch = last_seq (changes (pouch col) (last fetched) b) \<and>
                (filteredResults orc h f (changes (pouch col) (last fetched) b) \<noteq> [] \<or>
                 length (results (changes (pouch col) (last fetched) b)) < b)
            | Inl e \<Rightarrow>
                sync \<and>
                (\<exists>tr. fetchChain orc col h f b sync (getLastPushSequence ident col h) tr \<and>
                      filteredResults orc h f (changes (pouch col) (last tr) b) \<noteq> [] \<and>
                      mapResult fromBulkGet (bulkGet (pouch col)
                        (docsSearch (filteredResults orc h f (changes (pouch col) (last tr) b))))
                        = Inl e))"
proof -
  have ex: "\<And>s. N \<le> s \<Longrightarrow> length (results (changes (pouch col) (Some s) b)) \<noteq> b"
    using exhausted by fastforce
  have adv: "\<And>s. length (results (changes (pouch col) (Some s) b)) = b
                    \<Longrightarrow> s < last_seq (changes (pouch col) (Some s) b)"
    using advance by blast
  from getChanges_terminates[OF ex adv] obtain y where
    y: "getChangesSinceLastPushSequence ident orc col h f b sync = Some y" by blast
  show ?thesis
  proof (cases y)
    case (Inl e)
    from getChanges_Inl_chain[OF y[unfolded Inl]] obtain tr where
      ch: "fetchChain orc col h f b sync (getLastPushSequence ident col h) tr"
      and u: "useResults col sync (filteredResults orc h f (changes (pouch col) (last tr) b)) = Inl e"
      by blast
    from useResults_Inl[OF u] have s: "sync"
      and ne: "filteredResults orc h f (changes (pouch col) (last tr) b) \<noteq> []"
      by simp_all
    with u have "mapResult fromBulkGet (bulkGet (pouch col)
        (docsSearch (filteredResults orc h f (changes (pouch col) (last tr) b)))) = Inl e"
      by (simp add: useResults_def)
    with ch ne have "\<exists>tr. fetchChain orc col h f b sync (getLastPushSequence ident col h) tr \<and>
                      filteredResults orc h f (changes (pouch col) (last tr) b) \<noteq> [] \<and>
                      mapResult fromBulkGet (bulkGet (pouch col)
                        (docsSearch (filteredResults orc h f (changes (pouch col) (last tr) b))))
                        = Inl e"
      by blast
    with s y Inl show ?thesis by simp
  next
    case (Inr p)
    obtain batch fetched where p: "p = (batch, fetched)" by (cases p)
    let ?w = "changes (pouch col) (last fetched) b"
    from getChanges_Inr_chain[OF y[unfolded Inr p]] obtain use where
      ch: "fetchChain orc col h f b sync (getLastPushSequence ident col h) fetched"
      and u: "useResults col sync (filteredResults orc h f ?w) = Inr use"
      and r: "results batch = map (fromPouch col) use"
      and d: "use \<noteq> [] \<or> length (results ?w) \<noteq> b"
      and ls: "last_seq batch = last_seq ?w"
      by blast
    have stop: "filteredResults orc h f ?w \<noteq> [] \<or> length (results ?w) < b"
    proof (cases "filteredResults orc h f ?w = []")
      case True
      with u have "use = []" by (simp add: useResults_Nil)
      with d have "length (results ?w) \<noteq> b" by simp
      with atmost have "length (results ?w) < b"
        by (simp add: le_neq_implies_less)
      then show ?thesis by simp
    next
      case False
      then show ?thesis by simp
    qed
    from u r have "\<exists>use. useResults col sync (filteredResults orc h f ?w) = Inr use \<and>
                       results batch = map (fromPouch col) use"
      by blast
    with ch ls stop y Inr p show ?thesis by simp
  qed
qed

theorem retry_loop_terminates_witness:
  "getChangesSinceLastPushSequence ''gql'' memoryOracle
     (memoryCollection [] [filteredRow 1, filteredRow 2, rowC] [] ''id'') ''h1'' ''last_pulled_rev'' 2 False
   = Some (Inr (\<lparr>results =
        [\<lparr>row_id = ''c'', row_seq = Some 3,
          row_doc = [(''_rev'', JStr ''1-ccc''), (''id'', JStr ''c'')], row_deleted = None\<rparr>],
        last_seq = 3\<rparr>, [Some 0, Some 2]))
   \<and> fetchChain memoryOracle
       (memoryCollection [] [filteredRow 1, filteredRow 2, rowC] [] ''id'') ''h1'' ''last_pulled_rev'' 2 False
       (Some 0) [Some 0, Some 2]"
proof -
  let ?feed = "[filteredRow 1, filteredRow 2, rowC]"
  let ?col = "memoryCollection [] ?feed [] ''id''"
  have ch: "changes (pouch ?col) = pouch_changes ?feed"
    by (simp add: memoryCollection_def)
  have atmost: "\<forall>s. length (results (changes (pouch ?col) s 2)) \<le> 2"
    by (simp only: ch pouch_changes_length) simp
  have past: "\<forall>r\<in>set ?feed. \<not> seqAfter 3 r"
    by (simp add: seqAfter_def filteredRow_seq rowC_def memoryRow_def)
  have exhausted: "\<forall>s\<ge>3. length (results (changes (pouch ?col) (Some s) 2)) < 2"
    unfolding ch using pouch_changes_exhausted[OF past] by simp
  have advance: "\<forall>s. length (results (changes (pouch ?col) (Some s) 2)) = 2
                    \<longrightarrow> s < last_seq (changes (pouch ?col) (Some s) 2)"
    unfolding ch using pouch_changes_advances[of 2 ?feed] by simp
  from retry_loop_terminates[OF atmost exhausted advance, of "''gql''" memoryOracle "''h1''"
      "''last_pulled_rev''" False]
  obtain y where
    y: "getChangesSinceLastPushSequence ''gql'' memoryOracle ?col ''h1'' ''last_pulled_rev'' 2 False
          = Some y"
    and c: "case y of
              Inr (batch, fetched) \<Rightarrow>
                fetchChain memoryOracle ?col ''h1'' ''last_pulled_rev'' 2 False
                  (getLastPushSequence ''gql'' ?col ''h1'') fetched \<and>
                (\<exists>use. useResults ?col False
                          (filteredResults memoryOracle ''h1'' ''last_pulled_rev''
                             (changes (pouch ?col) (last fetched) 2)) = Inr use \<and>
                       results batch = map (fromPouch ?col) use) \<and>
                last_seq batch = last_seq (changes (pouch ?col) (last fetched) 2) \<and>
                (filteredResults memoryOracle ''h1'' ''last_pulled_rev''
                   (changes (pouch ?col) (last fetched) 2) \<noteq> [] \<or>
                 length (results (changes (pouch ?col) (last fetched) 2)) < 2)
            | Inl e \<Rightarrow>
                False \<and>
                (\<exists>tr. fetchChain memoryOracle ?col ''h1'' ''last_pulled_rev'' 2 False
                        (getLastPushSequence ''gql'' ?col ''h1'') tr \<and>
                      filteredResults memoryOracle ''h1'' ''last_pulled_rev''
                        (changes (pouch ?col) (last tr) 2) \<noteq> [] \<and>
                      mapResult fromBulkGet (bulkGet (pouch ?col)
                        (docsSearch (filteredResults memoryOracle ''h1'' ''last_pulled_rev''
                           (changes (pouch ?col) (last tr) 2))))
                        = Inl e)"
    by blast
  note run = y[unfolded memory_run_retry]
  from run have yv: "y = Inr (\<lparr>results =
        [\<lparr>row_id = ''c'', row_seq = Some 3,
          row_doc = [(''_rev'', JStr ''1-ccc''), (''id'', JStr ''c'')], row_deleted = None\<rparr>],
        last_seq = 3\<rparr>, [Some 0, Some 2])"
    by (simp only: option.inject)
  note ch = c[unfolded yv sum.case prod.case memory_cursor, THEN conjunct1]
  show ?thesis by (rule conjI[OF memory_run_retry ch])
qed

section \<open>The shape of a batch\<close>



section \<open>Push checkpoint: round trip\<close>

text \<open>
  C5: for every endpoint hash, once \<open>setLastPushSequence(h, 5)\<close> has succeeded,
  \<open>getLastPushSequence(h)\<close> returns 5; a following \<open>setLastPushSequence(h, 9)\<close>
  succeeds, after it \<open>getLastPushSequence(h)\<close> returns 9, and that second call
  wrote over the record of the first: the revision it was given follows the revision of
  the first record, and the keys held by the store are the same as before, so no second
  record was created.
\<close>

theorem push_sequence_round_trip:
  assumes "setLastPushSequence ident col h 5 = Inr (r1, col1)"
  shows "getLastPushSequence ident col1 h = Some 5 \<and>
         (\<exists>r2 col2. setLastPushSequence ident col1 h 9 = Inr (r2, col2) \<and>
            getLastPushSequence ident col2 h = Some 9 \<and>
            ld_rev r2 = Some (ls_new_rev (localDocumentsStore col1) (ld_rev r1)) \<and>
            map ld_id (ls_docs (localDocumentsStore col2)) = map ld_id (ls_docs (localDocumentsStore col1)))"
proof -
  note r1 = setLastPushSequence_result[OF assms]
  obtain r2 col2 where s2: "setLastPushSequence ident col1 h 9 = Inr (r2, col2)"
    using setLastPushSequence_succeeds by blast
  note r2 = setLastPushSequence_result[OF s2]
  from r1 have f1: "findLocalDocument (localDocumentsStore col1) (pushSequenceId ident h) = Some r1"
    by simp
  have "ld_rev r2 = Some (ls_new_rev (localDocumentsStore col1) (ld_rev r1))"
    using r2 f1 by simp
  moreover have "map ld_id (ls_docs (localDocumentsStore col2)) = map ld_id (ls_docs (localDocumentsStore col1))"
    by (rule setLastPushSequence_update_keys[OF f1 s2])
  ultimately show ?thesis
    using getLastPushSequence_after_set[OF assms] getLastPushSequence_after_set[OF s2] s2 by blast
qed

lemma set5_memory:
  "setLastPushSequence ''gql'' (memoryCollection [] [] [] ''id'') ''h1'' 5 =
     Inr (\<lparr>ld_id = ''gql-push-checkpoint-h1'', ld_rev = Some ''0-1'', ld_value = Some 5, ld_doc = None\<rparr>,
          memoryCollection [\<lparr>ld_id = ''gql-push-checkpoint-h1'', ld_rev = Some ''0-1'',
                             ld_value = Some 5, ld_doc = None\<rparr>] [] [] ''id'')"
  by (simp add: setLastPushSequence_def writeSingleLocal_def findLocalDocument_def
      memoryCollection_def memoryRev_def pushSequenceId_def Let_def)

theorem push_sequence_round_trip_witness:
  "setLastPushSequence ''gql'' (memoryCollection [] [] [] ''id'') ''h1'' 5 =
     Inr (\<lparr>ld_id = ''gql-push-checkpoint-h1'', ld_rev = Some ''0-1'', ld_value = Some 5, ld_doc = None\<rparr>,
          memoryCollection [\<lparr>ld_id = ''gql-push-checkpoint-h1'', ld_rev = Some ''0-1'',
                             ld_value = Some 5, ld_doc = None\<rparr>] [] [] ''id'')
   \<and> getLastPushSequence ''gql'' (memoryCollection [\<lparr>ld_id = ''gql-push-checkpoint-h1'',
         ld_rev = Some ''0-1'', ld_value = Some 5, ld_doc = None\<rparr>] [] [] ''id'') ''h1'' = Some 5"
  using push_sequence_round_trip[OF set5_memory] set5_memory by simp

section \<open>Absent checkpoints\<close>

text \<open>
  C6: for every endpoint hash under whose keys the store holds no record,
  \<open>getLastPushSequence\<close> returns 0 and \<open>getLastPullDocument\<close> returns null. Both
  are reads of the collection that return a value only: they have no error branch and
  give back no changed store.
\<close>

theorem absent_checkpoint_defaults:
  assumes "pushSequenceId ident h \<notin> ld_id ` set (ls_docs (localDocumentsStore col))"
    and "pullLastDocumentId ident h \<notin> ld_id ` set (ls_docs (localDocumentsStore col))"
  shows "getLastPushSequence ident col h = Some 0 \<and> getLastPullDocument ident col h = PullNull"
  using assms
  by (simp add: getLastPushSequence_def getLastPullDocument_def findLocalDocument_def
      find_None_iff_no_id[symmetric])

theorem absent_checkpoint_defaults_witness:
  "pushSequenceId ''gql'' ''h1'' \<notin> ld_id ` set (ls_docs (localDocumentsStore (memoryCollection [] [] [] ''id'')))
   \<and> pullLastDocumentId ''gql'' ''h1'' \<notin> ld_id ` set (ls_docs (localDocumentsStore (memoryCollection [] [] [] ''id'')))
   \<and> getLastPushSequence ''gql'' (memoryCollection [] [] [] ''id'') ''h1'' = Some 0
   \<and> getLastPullDocument ''gql'' (memoryCollection [] [] [] ''id'') ''h1'' = PullNull"
proof -
  have a: "pushSequenceId ''gql'' ''h1'' \<notin> ld_id ` set (ls_docs (localDocumentsStore (memoryCollection [] [] [] ''id'')))"
    by (simp add: memoryCollection_def)
  have b: "pullLastDocumentId ''gql'' ''h1'' \<notin> ld_id ` set (ls_docs (localDocumentsStore (memoryCollection [] [] [] ''id'')))"
    by (simp add: memoryCollection_def)
  from absent_checkpoint_defaults[OF a b] a b show ?thesis by simp
qed

section \<open>The stored sequence over a run of calls\<close>

text \<open>
  The stored sequence is whatever the last successful \<open>setLastPushSequence\<close> was
  given: writing 9 and then 5 leaves 5, and both calls succeed.
\<close>

theorem push_sequence_regresses:
  "runCalls ''gql'' (memoryCollection [] [] [] ''id'') ''h1'' [SetSeq 9, GetSeq, SetSeq 5, GetSeq]
     = Some [Some 9, Some 9, Some 5, Some 5]"
  by (simp add: setLastPushSequence_def writeSingleLocal_def findLocalDocument_def
      getLastPushSequence_def memoryCollection_def memoryRev_def pushSequenceId_def Let_def)

text \<open>
  C10, as the code has it: for every endpoint hash and every run of
  \<open>getLastPushSequence\<close> and \<open>setLastPushSequence\<close> calls that all succeed, if the
  sequences given to \<open>setLastPushSequence\<close> never fall below the stored one (they are
  in non-decreasing order, starting at or above the stored value), then the stored
  sequence read after each call never decreases.
\<close>

theorem push_sequence_monotone_under_ordered_writes:
  assumes "runCalls ident col h cs = Some vs"
    and "getLastPushSequence ident col h = Some v0"
    and "sorted (v0 # setArgs cs)"
  shows "\<exists>ns. vs = map Some ns \<and> sorted (v0 # ns)"
  using assms
proof (induction cs arbitrary: col v0 vs rule: setArgs.induct)
  case 1
  then show ?case by simp
next
  case (2 cs)
  from 2(2) obtain vs' where run: "runCalls ident col h cs = Some vs'"
    and vs: "vs = getLastPushSequence ident col h # vs'"
    by auto
  from 2(1)[OF run 2(3)] 2(4) obtain ns where "vs' = map Some ns" "sorted (v0 # ns)"
    by auto
  with vs 2(3) have "vs = map Some (v0 # ns) \<and> sorted (v0 # v0 # ns)" by simp
  then show ?case by blast
next
  case (3 n cs)
  obtain r col' where s: "setLastPushSequence ident col h n = Inr (r, col')"
    using setLastPushSequence_succeeds by blast
  note g = getLastPushSequence_after_set[OF s]
  from 3(2) s g obtain vs' where run: "runCalls ident col' h cs = Some vs'"
    and vs: "vs = Some n # vs'"
    by auto
  from 3(4) have "sorted (n # setArgs cs)" and le: "v0 \<le> n" by simp_all
  from 3(1)[OF run g this(1)] obtain ns where "vs' = map Some ns" "sorted (n # ns)"
    by auto
  with vs le have "vs = map Some (n # ns) \<and> sorted (v0 # n # ns)" by auto
  then show ?case by blast
qed

theorem push_sequence_monotone_under_ordered_writes_witness:
  "runCalls ''gql'' (memoryCollection [] [] [] ''id'') ''h1'' [SetSeq 5, GetSeq, SetSeq 9]
     = Some [Some 5, Some 5, Some 9]
   \<and> getLastPushSequence ''gql'' (memoryCollection [] [] [] ''id'') ''h1'' = Some 0
   \<and> sorted (0 # setArgs [SetSeq 5, GetSeq, SetSeq 9])
   \<and> sorted [0, 5, 5, 9 :: nat]"
proof -
  have run: "runCalls ''gql'' (memoryCollection [] [] [] ''id'') ''h1'' [SetSeq 5, GetSeq, SetSeq 9]
     = Some [Some 5, Some 5, Some 9]"
    by (simp add: setLastPushSequence_def writeSingleLocal_def findLocalDocument_def
        getLastPushSequence_def memoryCollection_def memoryRev_def pushSequenceId_def Let_def)
  have get: "getLastPushSequence ''gql'' (memoryCollection [] [] [] ''id'') ''h1'' = Some 0"
    by (simp add: getLastPushSequence_def findLocalDocument_def memoryCollection_def)
  have ord: "sorted (0 # setArgs [SetSeq 5, GetSeq, SetSeq 9])"
    by simp
  from push_sequence_monotone_under_ordered_writes[OF run get ord] run get ord
  show ?thesis by simp
qed

end
